theory Spec2Isabelle
  imports Main "HOL-Library.Word"
begin

section \<open>libdefer: deferred cleanup, panic and recover (defer.h, defer.c)\<close>

text \<open>
  The library keeps one thread-local stack of frames, \<open>__defer_frame_current\<close>, linked
  through the field \<open>link\<close>. The model keeps the frames of one thread as a list whose head
  is \<open>__defer_frame_current\<close> and whose tail is the chain of links; the empty list is the
  NULL pointer.

  Function pointers and data pointers are addresses (natural numbers, 0 is NULL). A
  \<open>jmp_buf\<close> holds the continuation captured by \<open>setjmp\<close>; it is modelled by the label of
  the program point that called \<open>setjmp\<close> (0 in memory zeroed by \<open>calloc\<close>).

  The registered handlers are code of the caller. Calling \<open>cleanup(arg)\<close> is recorded as
  the event \<open>(cleanup, arg)\<close> at the end of the field \<open>invoked\<close>.
\<close>

type_synonym fnptr = nat
type_synonym ptr = nat
type_synonym jmp_buf = nat

definition DEFER_MAX :: nat where
  "DEFER_MAX = 16"

record defer_frame_t =
  entries :: "(fnptr \<times> ptr) list"
  frame_context :: jmp_buf
  count :: nat
  can_recover :: bool
  ok :: bool

datatype defer_msg_t =
    DEFER_FRAME_ALLOC_FAILURE
  | DEFER_FRAME_OVERFLOW
  | DEFER_BACKTRACE_FAILURE
  | DEFER_BACKTRACE_NOTSUPP
  | DEFER_TSS_FAILURE
  | DEFER_ATEXIT_FAILURE

text \<open>What is written to stderr: a message of \<open>__defer_msg\<close>, or the report of \<open>panic\<close>
  (the name and description of the error come from \<open>__defer_error_name\<close> and
  \<open>strerror_r\<close>; the report is kept as the error number).\<close>

datatype defer_output = Msg string | PanicReport int

record defer_thread =
  frame_current :: "defer_frame_t list"
  invoked :: "(fnptr \<times> ptr) list"
  defer_stderr :: "defer_output list"

text \<open>How a call of the library ends: it returns a value, it leaves through \<open>longjmp\<close>
  to a captured continuation with a value, it ends the calling thread (\<open>thrd_exit\<close>), it
  ends the whole process (\<open>abort\<close>), or it dereferences the NULL frame pointer.\<close>

datatype 'a defer_result =
    Returns 'a
  | LongJmp jmp_buf int
  | ThrdExit int
  | Abort
  | NullDeref

fun defer_msg_text :: "defer_msg_t \<Rightarrow> string" where
  "defer_msg_text DEFER_FRAME_ALLOC_FAILURE = ''Could not allocate defer frame'' @ [CHR 0x0A]"
| "defer_msg_text DEFER_FRAME_OVERFLOW =
     ''Tried to defer more than DEFER_MAX handlers'' @ [CHR 0x0A]"
| "defer_msg_text DEFER_BACKTRACE_FAILURE = ''Backtrace generation failed'' @ [CHR 0x0A]"
| "defer_msg_text DEFER_BACKTRACE_NOTSUPP = ''Backtrace not supported'' @ [CHR 0x0A]"
| "defer_msg_text DEFER_ATEXIT_FAILURE = ''Could not register atexit() handler'' @ [CHR 0x0A]"
| "defer_msg_text DEFER_TSS_FAILURE = ''TSS registration failed'' @ [CHR 0x0A]"

definition defer_msg :: "defer_msg_t \<Rightarrow> defer_thread \<Rightarrow> defer_thread" where
  "defer_msg kind st = st\<lparr>defer_stderr := defer_stderr st @ [Msg (defer_msg_text kind)]\<rparr>"

text \<open>\<open>defer(cleanup, arg)\<close>: the assertion, the capacity check with its message and
  \<open>abort\<close>, then the store into \<open>entries[count]\<close> and the increment.\<close>

definition defer_fn :: "fnptr \<Rightarrow> ptr \<Rightarrow> defer_thread \<Rightarrow> ptr defer_result \<times> defer_thread" where
  "defer_fn cleanup arg st =
     (if cleanup = 0 then (Abort, st)
      else case frame_current st of
        [] \<Rightarrow> (NullDeref, st)
      | f # fs \<Rightarrow>
          if count f = DEFER_MAX then (Abort, defer_msg DEFER_FRAME_OVERFLOW st)
          else (Returns arg,
                st\<lparr>frame_current :=
                     f\<lparr>entries := (entries f)[count f := (cleanup, arg)],
                       count := count f + 1\<rparr> # fs\<rparr>))"

text \<open>\<open>__defer_frame_register\<close> on a frame fresh from \<open>calloc\<close>, as
  \<open>__cyg_profile_func_enter\<close> calls it. Whether \<open>calloc\<close> succeeds is an input.\<close>

definition calloc_frame :: defer_frame_t where
  "calloc_frame = \<lparr>entries = replicate DEFER_MAX (0, 0), frame_context = 0, count = 0,
                   can_recover = False, ok = False\<rparr>"

definition defer_frame_register :: "defer_frame_t \<Rightarrow> defer_thread \<Rightarrow> defer_thread" where
  "defer_frame_register self st = st\<lparr>frame_current := self # frame_current st\<rparr>"

definition cyg_profile_func_enter :: "bool \<Rightarrow> defer_thread \<Rightarrow> unit defer_result \<times> defer_thread" where
  "cyg_profile_func_enter alloc_ok st =
     (if \<not> alloc_ok then (Abort, defer_msg DEFER_FRAME_ALLOC_FAILURE st)
      else (Returns (), defer_frame_register calloc_frame st))"

text \<open>The loop of \<open>__defer_frame_deregister\<close>: \<open>n\<close> iterations remain; each decrements
  \<open>count\<close> of the frame on top and calls the entry at the new \<open>count\<close>. An index outside
  the array is a read out of bounds; it does not happen while \<open>count \<le> DEFER_MAX\<close>, and
  the model then calls nothing.\<close>

fun run_cleanups :: "nat \<Rightarrow> defer_thread \<Rightarrow> defer_thread" where
  "run_cleanups 0 st = st"
| "run_cleanups (Suc n) st =
     (case frame_current st of
        [] \<Rightarrow> st
      | f # fs \<Rightarrow>
          let c = count f - 1;
              st1 = st\<lparr>frame_current := f\<lparr>count := c\<rparr> # fs\<rparr>
          in run_cleanups n
               (if c < length (entries f)
                then st1\<lparr>invoked := invoked st1 @ [entries f ! c]\<rparr>
                else st1))"

text \<open>\<open>__defer_frame_deregister(self)\<close> with \<open>self = __defer_frame_current\<close>, which is
  how every caller calls it: run the loop, set \<open>ok\<close>, then unlink.\<close>

definition set_ok :: "defer_thread \<Rightarrow> defer_thread" where
  "set_ok st = (case frame_current st of
                  [] \<Rightarrow> st
                | f # fs \<Rightarrow> st\<lparr>frame_current := f\<lparr>ok := True\<rparr> # fs\<rparr>)"

definition unlink :: "defer_thread \<Rightarrow> defer_thread" where
  "unlink st = st\<lparr>frame_current := tl (frame_current st)\<rparr>"

definition defer_frame_deregister :: "defer_thread \<Rightarrow> defer_thread" where
  "defer_frame_deregister st =
     (case frame_current st of
        [] \<Rightarrow> st
      | f # fs \<Rightarrow> unlink (set_ok (run_cleanups (count f) st)))"

definition cyg_profile_func_exit :: "defer_thread \<Rightarrow> unit defer_result \<times> defer_thread" where
  "cyg_profile_func_exit st =
     (case frame_current st of
        [] \<Rightarrow> (Abort, st)
      | f # fs \<Rightarrow> (Returns (), defer_frame_deregister st))"

text \<open>\<open>__defer_frame_context\<close> marks the current frame and returns the address of its
  \<open>jmp_buf\<close>; \<open>recover()\<close> is \<open>setjmp\<close> on that buffer, which stores the continuation
  of the call site and returns 0.\<close>

definition defer_frame_context :: "defer_thread \<Rightarrow> unit defer_result \<times> defer_thread" where
  "defer_frame_context st =
     (case frame_current st of
        [] \<Rightarrow> (NullDeref, st)
      | f # fs \<Rightarrow> (Returns (), st\<lparr>frame_current := f\<lparr>can_recover := True\<rparr> # fs\<rparr>))"

definition recover :: "jmp_buf \<Rightarrow> defer_thread \<Rightarrow> int defer_result \<times> defer_thread" where
  "recover site st =
     (case defer_frame_context st of
        (Returns u, st1) \<Rightarrow>
          (case frame_current st1 of
             [] \<Rightarrow> (NullDeref, st1)
           | f # fs \<Rightarrow> (Returns 0, st1\<lparr>frame_current := f\<lparr>frame_context := site\<rparr> # fs\<rparr>))
      | (r, st1) \<Rightarrow> (NullDeref, st1))"

text \<open>The value \<open>setjmp\<close> returns after \<open>longjmp(env, val)\<close>.\<close>

definition longjmp_val :: "int \<Rightarrow> int" where
  "longjmp_val v = (if v = 0 then 1 else v)"

text \<open>\<open>__defer_unwind(error, recoverable)\<close>: while a frame is current, jump to its
  continuation when it is marked and the unwind is recoverable, else deregister it.\<close>

function defer_unwind :: "int \<Rightarrow> bool \<Rightarrow> defer_thread \<Rightarrow> unit defer_result \<times> defer_thread" where
  "defer_unwind error recoverable st =
     (case frame_current st of
        [] \<Rightarrow> (Returns (), st)
      | f # fs \<Rightarrow>
          if can_recover f \<and> recoverable then (LongJmp (frame_context f) error, st)
          else defer_unwind error recoverable (defer_frame_deregister st))"
  by pat_completeness auto
termination
proof (relation "measure (\<lambda>(error, recoverable, st). length (frame_current st))")
  show "wf (measure (\<lambda>(error, recoverable, st). length (frame_current st)))"
    by simp
next
  fix error :: int and recoverable :: bool and st :: defer_thread and f fs
  assume top: "frame_current st = f # fs"
  have keep: "length (frame_current (run_cleanups n s)) = length (frame_current s)" for n s
    by (induction n s rule: run_cleanups.induct) (auto simp: Let_def split: list.splits)
  have "length (frame_current (set_ok (run_cleanups (count f) st))) = length (frame_current st)"
    using keep [of "count f" st] by (auto simp: set_ok_def split: list.splits)
  then have "length (frame_current (defer_frame_deregister st)) < length (frame_current st)"
    using top by (simp add: defer_frame_deregister_def unlink_def)
  then show "((error, recoverable, defer_frame_deregister st), (error, recoverable, st))
               \<in> measure (\<lambda>(error, recoverable, st). length (frame_current st))"
    by simp
qed

declare defer_unwind.simps [simp del]

text \<open>\<open>panic(error)\<close>, built without \<open>DEFER_HAVE_LIBUNWIND\<close> (defer.h leaves it
  commented out): the assertion, the recoverable unwind, and when the unwind returns the
  report, the backtrace notice and \<open>thrd_exit(error)\<close>.\<close>

definition panic :: "int \<Rightarrow> defer_thread \<Rightarrow> unit defer_result \<times> defer_thread" where
  "panic error st =
     (if error = 0 then (Abort, st)
      else case defer_unwind error True st of
        (Returns u, st1) \<Rightarrow>
          (ThrdExit error,
           defer_msg DEFER_BACKTRACE_NOTSUPP
             (st1\<lparr>defer_stderr := defer_stderr st1 @ [PanicReport error]\<rparr>))
      | (r, st1) \<Rightarrow> (r, st1))"

text \<open>\<open>__defer_thrd_fini\<close>: the unwind that honours no recovery point.\<close>

definition defer_thrd_fini :: "defer_thread \<Rightarrow> unit defer_result \<times> defer_thread" where
  "defer_thrd_fini st = defer_unwind 0 False st"

text \<open>The pairs a frame still has to run, most recently registered first.\<close>

definition pending :: "defer_frame_t \<Rightarrow> (fnptr \<times> ptr) list" where
  "pending f = rev (take (count f) (entries f))"

text \<open>The frame of a thread that has just entered a function, and the state after
  registering the pairs \<open>ps\<close> in order with \<open>defer\<close> (the first failing call stops the
  sequence).\<close>

fun defer_all :: "(fnptr \<times> ptr) list \<Rightarrow> defer_thread \<Rightarrow> unit defer_result \<times> defer_thread" where
  "defer_all [] st = (Returns (), st)"
| "defer_all ((h, a) # ps) st =
     (case defer_fn h a st of
        (Returns r, st1) \<Rightarrow> defer_all ps st1
      | (LongJmp b v, st1) \<Rightarrow> (LongJmp b v, st1)
      | (ThrdExit c, st1) \<Rightarrow> (ThrdExit c, st1)
      | (Abort, st1) \<Rightarrow> (Abort, st1)
      | (NullDeref, st1) \<Rightarrow> (NullDeref, st1))"

subsection \<open>Auxiliary notions for the statements about libdefer\<close>

text \<open>A frame as the library keeps it: the array has \<open>DEFER_MAX\<close> slots and \<open>count\<close>
  is within it. \<open>calloc\<close> gives such a frame and \<open>defer\<close> keeps it so.\<close>

definition frame_ok :: "defer_frame_t \<Rightarrow> bool" where
  "frame_ok f = (length (entries f) = DEFER_MAX \<and> count f \<le> DEFER_MAX)"

text \<open>Where control resumes after a \<open>longjmp\<close>, and the value \<open>setjmp\<close> (that is,
  \<open>recover()\<close>) returns there.\<close>

definition resume :: "'a defer_result \<Rightarrow> (jmp_buf \<times> int) option" where
  "resume r = (case r of LongJmp b v \<Rightarrow> Some (b, longjmp_val v) | _ \<Rightarrow> None)"

text \<open>What a thread does with the library, one call at a time: the instrumentation hooks
  at function entry and exit, \<open>defer\<close>, \<open>recover()\<close> at a call site, and \<open>panic\<close>.
  \<open>defer_states\<close> lists the states a sequence of calls goes through; the sequence ends
  with the first call that ends the thread or the process.\<close>

datatype defer_op = Enter | Exit | Defer fnptr ptr | Recover jmp_buf | Panic int

definition forget :: "'a defer_result \<times> defer_thread \<Rightarrow> unit defer_result \<times> defer_thread" where
  "forget p = (map_defer_result (\<lambda>x. ()) (fst p), snd p)"

fun defer_step :: "defer_op \<Rightarrow> defer_thread \<Rightarrow> unit defer_result \<times> defer_thread" where
  "defer_step Enter st = cyg_profile_func_enter True st"
| "defer_step Exit st = cyg_profile_func_exit st"
| "defer_step (Defer h a) st = forget (defer_fn h a st)"
| "defer_step (Recover site) st = forget (recover site st)"
| "defer_step (Panic error) st = panic error st"

definition continues :: "unit defer_result \<Rightarrow> bool" where
  "continues r = (case r of Returns u \<Rightarrow> True | LongJmp b v \<Rightarrow> True | _ \<Rightarrow> False)"

fun defer_states :: "defer_op list \<Rightarrow> defer_thread \<Rightarrow> defer_thread list" where
  "defer_states [] st = [st]"
| "defer_states (x # xs) st =
     (if continues (fst (defer_step x st))
      then st # defer_states xs (snd (defer_step x st))
      else [st, snd (defer_step x st)])"

text \<open>A thread before its first function entry.\<close>

definition thread_init :: defer_thread where
  "thread_init = \<lparr>frame_current = [], invoked = [], defer_stderr = []\<rparr>"

text \<open>A function scope: the entry hook, then \<open>defer\<close> for each pair of \<open>ps\<close> in
  order.\<close>

definition in_scope :: "(fnptr \<times> ptr) list \<Rightarrow> defer_thread \<Rightarrow> unit defer_result \<times> defer_thread" where
  "in_scope ps st =
     (case cyg_profile_func_enter True st of
        (Returns u, st0) \<Rightarrow> defer_all ps st0
      | other \<Rightarrow> other)"

definition marked_frames :: "defer_thread \<Rightarrow> defer_frame_t list" where
  "marked_frames st = filter can_recover (frame_current st)"

text \<open>Sample states: an outer frame that called \<open>recover()\<close> at site 7 and registered
  one pair, below an inner frame with two pairs; and a frame that is full.\<close>

definition example_inner :: defer_frame_t where
  "example_inner = \<lparr>entries = [(2, 20), (3, 30)] @ replicate 14 (0, 0), frame_context = 0,
                     count = 2, can_recover = False, ok = False\<rparr>"

definition example_outer :: defer_frame_t where
  "example_outer = \<lparr>entries = (1, 10) # replicate 15 (0, 0), frame_context = 7,
                     count = 1, can_recover = True, ok = False\<rparr>"

definition example_thread :: defer_thread where
  "example_thread = \<lparr>frame_current = [example_inner, example_outer], invoked = [],
                      defer_stderr = []\<rparr>"

definition example_full :: defer_thread where
  "example_full = \<lparr>frame_current =
       [\<lparr>entries = replicate 16 (5, 50), frame_context = 0, count = 16,
         can_recover = False, ok = False\<rparr>], invoked = [], defer_stderr = []\<rparr>"

section \<open>libexcept: try, catch, finally, throw and rethrow (except.h, except.c)\<close>

text \<open>
  The library is a set of macros around \<open>sigsetjmp\<close> and \<open>siglongjmp\<close> and three
  functions, \<open>__except_throw\<close>, \<open>__except_unhandled\<close> and \<open>__except_unexpected\<close>, which
  themselves use the macros. The code of the caller stands between the macros, so the model
  has a small language of commands: the caller's own statements, the macros, and the
  library's functions. \<open>step_of\<close> gives the step each command takes, following the macro
  expansion and the function bodies, and the interpreter \<open>exec\<close> runs the steps. The
  interpreter is a partial function: the value \<open>None\<close> stands for a run that does not
  return.
\<close>

type_synonym byte = "8 word"

definition EXCEPT_MAX_THROWABLE_SIZE :: nat where
  "EXCEPT_MAX_THROWABLE_SIZE = 128"

definition EXIT_FAILURE :: int where
  "EXIT_FAILURE = 1"

text \<open>The types an object can be thrown with: the scalar types that \<open>_Generic\<close> in
  \<open>__EXCEPT_TYPE_NAME\<close> lists, and any other type, given by its spelling in the macro
  argument (\<open>#T\<close>) and its size. The sizes of the scalar types are those of an LP64
  target.\<close>

datatype ctype =
    T_schar | T_uchar | T_char | T_short | T_ushort | T_int | T_uint | T_long | T_ulong
  | T_longlong | T_ulonglong | T_float | T_double | T_ldbl
  | T_other string nat

fun EXCEPT_TYPE_NAME :: "ctype \<Rightarrow> string" where
  "EXCEPT_TYPE_NAME T_schar = ''schar''"
| "EXCEPT_TYPE_NAME T_uchar = ''uchar''"
| "EXCEPT_TYPE_NAME T_char = ''char''"
| "EXCEPT_TYPE_NAME T_short = ''short''"
| "EXCEPT_TYPE_NAME T_ushort = ''ushort''"
| "EXCEPT_TYPE_NAME T_int = ''int''"
| "EXCEPT_TYPE_NAME T_uint = ''uint''"
| "EXCEPT_TYPE_NAME T_long = ''long''"
| "EXCEPT_TYPE_NAME T_ulong = ''ulong''"
| "EXCEPT_TYPE_NAME T_longlong = ''longlong''"
| "EXCEPT_TYPE_NAME T_ulonglong = ''ulonglong''"
| "EXCEPT_TYPE_NAME T_float = ''float''"
| "EXCEPT_TYPE_NAME T_double = ''double''"
| "EXCEPT_TYPE_NAME T_ldbl = ''ldbl''"
| "EXCEPT_TYPE_NAME (T_other spelling n) = spelling"

fun sizeof :: "ctype \<Rightarrow> nat" where
  "sizeof T_schar = 1"
| "sizeof T_uchar = 1"
| "sizeof T_char = 1"
| "sizeof T_short = 2"
| "sizeof T_ushort = 2"
| "sizeof T_int = 4"
| "sizeof T_uint = 4"
| "sizeof T_long = 8"
| "sizeof T_ulong = 8"
| "sizeof T_longlong = 8"
| "sizeof T_ulonglong = 8"
| "sizeof T_float = 4"
| "sizeof T_double = 8"
| "sizeof T_ldbl = 16"
| "sizeof (T_other spelling n) = n"

text \<open>What the caller's code lets an observer see, and what the library writes to
  stderr (the format strings of \<open>__except_unhandled\<close> and \<open>__except_unexpected\<close>, with
  the value of \<open>current_id\<close>).\<close>

datatype event = Mark nat | Bound "byte list"

datatype except_output = Unhandled_msg "string option" | Unexpected_msg "string option"

text \<open>The state of one thread: the two thread-local variables of except.c, the
  thread-local pointer behind \<open>__except_current_context\<close> (the address of the innermost
  live \<open>jmp_buf\<close>, \<open>None\<close> for NULL), the three hook pointers (0 for NULL), stderr and the
  observable events.\<close>

record except_thread =
  current_exception :: "byte list"
  current_id :: "string option"
  buffer :: "nat option"
  except_on_throw :: fnptr
  except_on_unhandled :: fnptr
  except_on_unexpected :: fnptr
  except_stderr :: "except_output list"
  events :: "event list"

text \<open>How a command ends: normally; by \<open>break\<close> (which is what \<open>rethrow()\<close> expands
  to); by \<open>siglongjmp\<close> to a buffer, always with the value 1; by \<open>thrd_exit\<close>; or with
  undefined behaviour (a call through a NULL pointer, \<open>strcmp\<close> on a NULL pointer, a
  copy beyond a buffer).\<close>

datatype outcome = Normal | Break | Jump nat | Thrd_exited int | Undefined

text \<open>The commands. \<open>Emits\<close> is straight-line code of the caller that does nothing with
  the library; \<open>Write_exception i b\<close> is a hook storing the byte \<open>b\<close> at offset \<open>i\<close>
  through the pointer it was given. \<open>THROW\<close>, \<open>RETHROW\<close> and \<open>TRY\<close> with its clauses are
  the macros; a catch clause binds the caught object for its body. The others are the
  library's functions, the calls of the three hooks through their pointers, the assignment
  \<open>except_on_unexpected = NULL\<close>, \<open>thrd_exit\<close>, and the \<open>for\<close> loop of \<open>__EXCEPT_TRY\<close>
  with the values of its local variables: the clauses, \<open>old_buffer\<close>, the address of
  \<open>local_buffer\<close>, \<open>__except_stage\<close> and \<open>__except_error\<close>.\<close>

datatype cmd =
    Skip
  | Emits "event list"
  | Seq cmd cmd
  | Write_exception nat byte
  | THROW ctype "byte list"
  | RETHROW
  | TRY cmd "clause list"
  | Except_throw "string option" nat "byte list"
  | Except_unhandled
  | Except_unexpected
  | Call_on_throw
  | Call_on_unhandled
  | Call_on_unexpected
  | Reset_on_unexpected
  | Thrd_exit int
  | Stage_loop cmd "clause list" "nat option" nat int int
and clause =
    CATCH ctype "byte list \<Rightarrow> cmd"
  | CATCH_ANY cmd
  | FINALLY cmd

definition EXCEPT_STAGE_TRY :: int where "EXCEPT_STAGE_TRY = 0"
definition EXCEPT_STAGE_CATCH :: int where "EXCEPT_STAGE_CATCH = 1"
definition EXCEPT_STAGE_FINALLY :: int where "EXCEPT_STAGE_FINALLY = 2"
definition EXCEPT_STAGE_PROPAGATE :: int where "EXCEPT_STAGE_PROPAGATE = 3"
definition EXCEPT_STAGE_UNEXPECTED :: int where "EXCEPT_STAGE_UNEXPECTED = - 1"

text \<open>\<open>memcpy(dst, src, n)\<close>; reading or writing beyond an object is undefined.\<close>

definition memcpy :: "byte list \<Rightarrow> byte list \<Rightarrow> nat \<Rightarrow> byte list option" where
  "memcpy dst src n =
     (if n \<le> length src \<and> n \<le> length dst then Some (take n src @ drop n dst) else None)"

text \<open>\<open>__except_personality(id)\<close> is \<open>strcmp(current_id, id) == 0\<close>; with
  \<open>current_id\<close> NULL the comparison is undefined (\<open>None\<close>).\<close>

definition except_personality :: "string \<Rightarrow> except_thread \<Rightarrow> bool option" where
  "except_personality ident st =
     (case current_id st of None \<Rightarrow> None | Some cur \<Rightarrow> Some (cur = ident))"

text \<open>The chain of \<open>else if\<close> that the clauses of a block form, in the order they are
  written: the first clause whose condition holds is the statement executed in this
  iteration of the loop.\<close>

datatype selected = Nothing | Selected clause | Strcmp_null

fun select_clause :: "int \<Rightarrow> int \<Rightarrow> except_thread \<Rightarrow> clause list \<Rightarrow> selected" where
  "select_clause stage error st [] = Nothing"
| "select_clause stage error st (CATCH T body # cs) =
     (if stage = EXCEPT_STAGE_CATCH \<and> error \<noteq> 0
      then (case except_personality (EXCEPT_TYPE_NAME T) st of
              None \<Rightarrow> Strcmp_null
            | Some True \<Rightarrow> Selected (CATCH T body)
            | Some False \<Rightarrow> select_clause stage error st cs)
      else select_clause stage error st cs)"
| "select_clause stage error st (CATCH_ANY body # cs) =
     (if stage = EXCEPT_STAGE_CATCH \<and> error \<noteq> 0 then Selected (CATCH_ANY body)
      else select_clause stage error st cs)"
| "select_clause stage error st (FINALLY body # cs) =
     (if stage = EXCEPT_STAGE_FINALLY then Selected (FINALLY body)
      else select_clause stage error st cs)"

text \<open>The address of the \<open>local_buffer\<close> of a block entered while \<open>old\<close> is the
  innermost buffer: a new object, at an address no live buffer has.\<close>

definition fresh_buffer :: "nat option \<Rightarrow> nat" where
  "fresh_buffer old = (case old of None \<Rightarrow> 1 | Some k \<Rightarrow> Suc k)"

text \<open>The \<open>T var = *(T* )__except_current_exception()\<close> of a catch clause.\<close>

definition bound_object :: "ctype \<Rightarrow> except_thread \<Rightarrow> byte list" where
  "bound_object T st = take (sizeof T) (current_exception st)"


subsection \<open>One step of a command\<close>

text \<open>
  The interpreter runs a command one step at a time. A step is over at once, with an
  outcome or with the command to go on with (a tail call); or it first runs a command to
  its end and then decides from the outcome how to go on (a call in the middle of a
  function body, the body of a clause in the loop of a block).
\<close>

datatype after = Finish outcome except_thread | Continue cmd except_thread

datatype step = Now after | Sub cmd except_thread "outcome \<Rightarrow> except_thread \<Rightarrow> after"

text \<open>The first statement of \<open>__except_throw\<close>: when \<open>id\<close> is not NULL, copy the
  object into \<open>current_exception\<close> and set \<open>current_id\<close>. \<open>None\<close> is a copy beyond
  one of the two objects.\<close>

definition store_exception ::
  "string option \<Rightarrow> nat \<Rightarrow> byte list \<Rightarrow> except_thread \<Rightarrow> except_thread option" where
  "store_exception ident exception_size exception st =
     (case ident of
        None \<Rightarrow> Some st
      | Some name \<Rightarrow>
          (case memcpy (current_exception st) exception exception_size of
             None \<Rightarrow> None
           | Some bytes \<Rightarrow> Some (st\<lparr>current_exception := bytes, current_id := Some name\<rparr>)))"

text \<open>The end of \<open>__except_throw\<close>: jump to the innermost buffer, or with no buffer
  call \<open>__except_unhandled\<close>.\<close>

definition deliver :: "except_thread \<Rightarrow> after" where
  "deliver st =
     (case buffer st of
        Some k \<Rightarrow> Finish (Jump k) st
      | None \<Rightarrow> Continue Except_unhandled st)"

text \<open>\<open>__except_throw(id, exception_size, exception)\<close>: the copy, the hook inside its
  own block whose \<open>catch_any\<close> calls \<open>__except_unexpected\<close>, then the jump.\<close>

definition except_throw :: "string option \<Rightarrow> nat \<Rightarrow> byte list \<Rightarrow> except_thread \<Rightarrow> step" where
  "except_throw ident exception_size exception st =
     (case store_exception ident exception_size exception st of
        None \<Rightarrow> Now (Finish Undefined st)
      | Some st1 \<Rightarrow>
          if except_on_throw st1 \<noteq> 0
          then Sub (TRY Call_on_throw [CATCH_ANY Except_unexpected]) st1
                 (\<lambda>out st2. case out of Normal \<Rightarrow> deliver st2 | other \<Rightarrow> Finish other st2)
          else Now (deliver st1))"

definition print_unhandled :: "except_thread \<Rightarrow> except_thread" where
  "print_unhandled st = st\<lparr>except_stderr := except_stderr st @ [Unhandled_msg (current_id st)]\<rparr>"

definition print_unexpected :: "except_thread \<Rightarrow> except_thread" where
  "print_unexpected st = st\<lparr>except_stderr := except_stderr st @ [Unexpected_msg (current_id st)]\<rparr>"

text \<open>\<open>__except_unhandled()\<close>: the hook inside its own block, or the message; then
  \<open>thrd_exit(EXIT_FAILURE)\<close>.\<close>

definition except_unhandled :: "except_thread \<Rightarrow> step" where
  "except_unhandled st =
     (if except_on_unhandled st \<noteq> 0
      then Sub (TRY Call_on_unhandled [CATCH_ANY Except_unexpected]) st
             (\<lambda>out st1. case out of
                           Normal \<Rightarrow> Continue (Thrd_exit EXIT_FAILURE) st1
                         | other \<Rightarrow> Finish other st1)
      else Now (Continue (Thrd_exit EXIT_FAILURE) (print_unhandled st)))"

text \<open>\<open>__except_unexpected()\<close>: the hook inside its own block, whose \<open>catch_any\<close>
  resets the hook and calls \<open>__except_unexpected\<close> again, or the message; then
  \<open>thrd_exit(EXIT_FAILURE)\<close>.\<close>

definition except_unexpected :: "except_thread \<Rightarrow> step" where
  "except_unexpected st =
     (if except_on_unexpected st \<noteq> 0
      then Sub (TRY Call_on_unexpected [CATCH_ANY (Seq Reset_on_unexpected Except_unexpected)]) st
             (\<lambda>out st1. case out of
                           Normal \<Rightarrow> Continue (Thrd_exit EXIT_FAILURE) st1
                         | other \<Rightarrow> Finish other st1)
      else Now (Continue (Thrd_exit EXIT_FAILURE) (print_unexpected st)))"

text \<open>
  One iteration of the \<open>for\<close> loop of \<open>__EXCEPT_TRY\<close>, from its condition on. The chain
  of \<open>if\<close> and \<open>else if\<close> of the macros picks the statement to execute; \<open>loop_after\<close>
  says how the loop goes on when that statement is over:

  \<^item> when it completes, the steps of the enclosing \<open>for\<close> loops run: a catch clause sets
    \<open>__except_error = 0\<close> and \<open>__except_stage\<close> back to \<open>__EXCEPT_STAGE_CATCH\<close>, a
    finally clause sets \<open>__except_stage\<close> back to \<open>__EXCEPT_STAGE_FINALLY\<close>, and the stage
    loop increments \<open>__except_stage\<close>;
  \<^item> \<open>break\<close> (that is, \<open>rethrow()\<close>) leaves the innermost enclosing \<open>for\<close>: in a catch
    body that is the loop binding the object, whose step \<open>__except_error = 0\<close> is then
    skipped; in a finally body it is the loop that restores \<open>__except_stage\<close>, which
    then stays at \<open>-1\<close> and is incremented to 0; in a try body it is the stage loop itself,
    and the block is left with its buffer still installed;
  \<^item> a jump to the block's own buffer comes back at the return of \<open>sigsetjmp\<close> in the
    loop's initialiser: \<open>__except_error\<close> becomes 1, \<open>__except_stage\<close> keeps the value
    it had at the jump (the variables of the loop live in memory), and the loop goes on at
    its condition. A jump to another buffer leaves the block.
\<close>

datatype next_iteration = Next int int | Leave | Pass

definition loop_after ::
  "cmd \<Rightarrow> clause list \<Rightarrow> nat option \<Rightarrow> nat \<Rightarrow> next_iteration \<Rightarrow> next_iteration \<Rightarrow> int \<Rightarrow>
   outcome \<Rightarrow> except_thread \<Rightarrow> after" where
  "loop_after body clauses old_buffer local_buffer on_normal on_break stage_at_jump out st =
     (case out of
        Normal \<Rightarrow>
          (case on_normal of
             Next stage error \<Rightarrow>
               Continue (Stage_loop body clauses old_buffer local_buffer stage error) st
           | Leave \<Rightarrow> Finish Normal st
           | Pass \<Rightarrow> Finish Normal st)
      | Break \<Rightarrow>
          (case on_break of
             Next stage error \<Rightarrow>
               Continue (Stage_loop body clauses old_buffer local_buffer stage error) st
           | Leave \<Rightarrow> Finish Normal st
           | Pass \<Rightarrow> Finish Break st)
      | Jump k \<Rightarrow>
          if k = local_buffer
          then Continue (Stage_loop body clauses old_buffer local_buffer stage_at_jump 1) st
          else Finish (Jump k) st
      | other \<Rightarrow> Finish other st)"

definition stage_loop ::
  "cmd \<Rightarrow> clause list \<Rightarrow> nat option \<Rightarrow> nat \<Rightarrow> int \<Rightarrow> int \<Rightarrow> except_thread \<Rightarrow> step" where
  "stage_loop body clauses old_buffer local_buffer stage error st =
     (if \<not> stage < 4 then Now (Finish Normal st)
      else if stage = EXCEPT_STAGE_PROPAGATE then
        (if error \<noteq> 0
         then Sub (Except_throw None 0 []) (st\<lparr>buffer := old_buffer\<rparr>)
                (loop_after body clauses old_buffer local_buffer
                   (Next (stage + 1) error) Pass stage)
         else Now (Continue (Stage_loop body clauses old_buffer local_buffer (stage + 1) error)
                     (st\<lparr>buffer := old_buffer\<rparr>)))
      else if stage = EXCEPT_STAGE_UNEXPECTED then
        Sub Except_unexpected st
          (loop_after body clauses old_buffer local_buffer (Next (stage + 1) error) Pass stage)
      else if stage = EXCEPT_STAGE_TRY \<and> error = 0 then
        Sub body st
          (loop_after body clauses old_buffer local_buffer (Next (stage + 1) error) Leave stage)
      else
        (case select_clause stage error st clauses of
           Strcmp_null \<Rightarrow> Now (Finish Undefined st)
         | Nothing \<Rightarrow>
             Now (Continue (Stage_loop body clauses old_buffer local_buffer (stage + 1) error) st)
         | Selected (CATCH T handler) \<Rightarrow>
             Sub (handler (bound_object T st)) st
               (loop_after body clauses old_buffer local_buffer
                  (Next (EXCEPT_STAGE_CATCH + 1) 0) (Next (EXCEPT_STAGE_CATCH + 1) error)
                  EXCEPT_STAGE_UNEXPECTED)
         | Selected (CATCH_ANY handler) \<Rightarrow>
             Sub handler st
               (loop_after body clauses old_buffer local_buffer
                  (Next (EXCEPT_STAGE_CATCH + 1) 0) (Next (EXCEPT_STAGE_CATCH + 1) error)
                  EXCEPT_STAGE_UNEXPECTED)
         | Selected (FINALLY handler) \<Rightarrow>
             Sub handler st
               (loop_after body clauses old_buffer local_buffer
                  (Next (EXCEPT_STAGE_FINALLY + 1) error)
                  (Next (EXCEPT_STAGE_UNEXPECTED + 1) error)
                  EXCEPT_STAGE_UNEXPECTED)))"

text \<open>A call through a hook pointer: \<open>H\<close> gives the code behind a function pointer;
  a call through NULL is undefined.\<close>

definition call_hook :: "(fnptr \<Rightarrow> cmd) \<Rightarrow> fnptr \<Rightarrow> except_thread \<Rightarrow> step" where
  "call_hook H f st = (if f = 0 then Now (Finish Undefined st) else Now (Continue (H f) st))"

text \<open>The step of each command. \<open>TRY\<close> is the three declarations before the \<open>for\<close>
  statement, then the loop, entered with \<open>__except_stage = 0\<close> and with
  \<open>__except_error = 0\<close>, the value of the direct return of \<open>sigsetjmp\<close>.\<close>

fun step_of :: "(fnptr \<Rightarrow> cmd) \<Rightarrow> cmd \<Rightarrow> except_thread \<Rightarrow> step" where
  "step_of H Skip st = Now (Finish Normal st)"
| "step_of H (Emits es) st = Now (Finish Normal (st\<lparr>events := events st @ es\<rparr>))"
| "step_of H (Seq c1 c2) st =
     Sub c1 st (\<lambda>out st1. case out of Normal \<Rightarrow> Continue c2 st1 | other \<Rightarrow> Finish other st1)"
| "step_of H (Write_exception i b) st =
     (if i < length (current_exception st)
      then Now (Finish Normal (st\<lparr>current_exception := (current_exception st)[i := b]\<rparr>))
      else Now (Finish Undefined st))"
| "step_of H (THROW T v) st =
     Now (Continue (Except_throw (Some (EXCEPT_TYPE_NAME T)) (sizeof T) v) st)"
| "step_of H RETHROW st = Now (Finish Break st)"
| "step_of H (TRY body clauses) st =
     Now (Continue (Stage_loop body clauses (buffer st) (fresh_buffer (buffer st)) 0 0)
            (st\<lparr>buffer := Some (fresh_buffer (buffer st))\<rparr>))"
| "step_of H (Stage_loop body clauses old_buffer local_buffer stage error) st =
     stage_loop body clauses old_buffer local_buffer stage error st"
| "step_of H (Except_throw ident exception_size exception) st =
     except_throw ident exception_size exception st"
| "step_of H Except_unhandled st = except_unhandled st"
| "step_of H Except_unexpected st = except_unexpected st"
| "step_of H Call_on_throw st = call_hook H (except_on_throw st) st"
| "step_of H Call_on_unhandled st = call_hook H (except_on_unhandled st) st"
| "step_of H Call_on_unexpected st = call_hook H (except_on_unexpected st) st"
| "step_of H Reset_on_unexpected st = Now (Finish Normal (st\<lparr>except_on_unexpected := 0\<rparr>))"
| "step_of H (Thrd_exit code) st = Now (Finish (Thrd_exited code) st)"

subsection \<open>The interpreter\<close>

text \<open>\<open>exec H c st\<close> runs \<open>c\<close> from \<open>st\<close> to its end, with the outcome and the final
  state; \<open>None\<close> stands for a run that does not end.\<close>

partial_function (option) exec ::
  "(fnptr \<Rightarrow> cmd) \<Rightarrow> cmd \<Rightarrow> except_thread \<Rightarrow> (outcome \<times> except_thread) option"
where
  "exec H c st =
    (case step_of H c st of
       Now (Finish out st1) \<Rightarrow> Some (out, st1)
     | Now (Continue c1 st1) \<Rightarrow> exec H c1 st1
     | Sub c1 st1 k \<Rightarrow>
         Option.bind (exec H c1 st1) (\<lambda>(out, st2).
           case k out st2 of
             Finish out3 st3 \<Rightarrow> Some (out3, st3)
           | Continue c3 st3 \<Rightarrow> exec H c3 st3))"

declare exec.simps [code]

subsection \<open>Auxiliary notions for the statements about libexcept\<close>

text \<open>A thread that has thrown nothing yet: the thread-local variables are zero.\<close>

definition except_init :: except_thread where
  "except_init = \<lparr>current_exception = replicate EXCEPT_MAX_THROWABLE_SIZE 0, current_id = None,
     buffer = None, except_on_throw = 0, except_on_unhandled = 0, except_on_unexpected = 0,
     except_stderr = [], events = []\<rparr>"

text \<open>No hook is installed behind any pointer.\<close>

definition no_hooks :: "fnptr \<Rightarrow> cmd" where
  "no_hooks f = Skip"

text \<open>A hook is quiet when it is not installed, or when its code is straight-line code
  that does nothing with the library (it logs, or sets a flag, and returns).\<close>

definition quiet :: "(fnptr \<Rightarrow> cmd) \<Rightarrow> fnptr \<Rightarrow> bool" where
  "quiet H f = (f = 0 \<or> (case H f of Emits es \<Rightarrow> True | _ \<Rightarrow> False))"

definition hook_events :: "(fnptr \<Rightarrow> cmd) \<Rightarrow> fnptr \<Rightarrow> event list" where
  "hook_events H f = (if f = 0 then [] else case H f of Emits es \<Rightarrow> es | _ \<Rightarrow> [])"

text \<open>Clauses whose bodies are straight-line code, a catch body possibly ending with
  \<open>rethrow()\<close> (the flag), and the clauses of the macros they stand for.\<close>

datatype plain_clause =
    Plain_catch ctype "byte list \<Rightarrow> event list" bool
  | Plain_catch_any "event list" bool
  | Plain_finally "event list"

fun clause_of :: "plain_clause \<Rightarrow> clause" where
  "clause_of (Plain_catch T f r) =
     CATCH T (\<lambda>e. if r then Seq (Emits (f e)) RETHROW else Emits (f e))"
| "clause_of (Plain_catch_any es r) =
     CATCH_ANY (if r then Seq (Emits es) RETHROW else Emits es)"
| "clause_of (Plain_finally es) = FINALLY (Emits es)"

text \<open>The first catch clause, in the order of declaration, that takes a pending
  exception with the type tag \<open>tag\<close>; what its body emits and whether it rethrows; and
  what the finally clause of the block emits.\<close>

fun catches :: "string \<Rightarrow> plain_clause \<Rightarrow> bool" where
  "catches tag (Plain_catch T f r) = (EXCEPT_TYPE_NAME T = tag)"
| "catches tag (Plain_catch_any es r) = True"
| "catches tag (Plain_finally es) = False"

definition first_catch :: "string \<Rightarrow> plain_clause list \<Rightarrow> plain_clause option" where
  "first_catch tag ps = find (catches tag) ps"

fun catch_events :: "except_thread \<Rightarrow> plain_clause option \<Rightarrow> event list" where
  "catch_events st (Some (Plain_catch T f r)) = f (bound_object T st)"
| "catch_events st (Some (Plain_catch_any es r)) = es"
| "catch_events st other = []"

fun consumes :: "plain_clause option \<Rightarrow> bool" where
  "consumes (Some (Plain_catch T f r)) = (\<not> r)"
| "consumes (Some (Plain_catch_any es r)) = (\<not> r)"
| "consumes other = False"

fun is_finally :: "plain_clause \<Rightarrow> bool" where
  "is_finally (Plain_finally es) = True"
| "is_finally other = False"

definition finally_events :: "plain_clause list \<Rightarrow> event list" where
  "finally_events ps = (case find is_finally ps of Some (Plain_finally es) \<Rightarrow> es | _ \<Rightarrow> [])"

text \<open>Where a throw with quiet hooks ends once the object is stored: after the on-throw
  hook, at the innermost buffer; or, with no buffer, after the on-unhandled hook or the
  default message, with the end of the thread.\<close>

definition unhandled_end :: "(fnptr \<Rightarrow> cmd) \<Rightarrow> except_thread \<Rightarrow> except_thread" where
  "unhandled_end H st =
     (if except_on_unhandled st = 0 then print_unhandled st
      else st\<lparr>events := events st @ hook_events H (except_on_unhandled st)\<rparr>)"

definition delivered :: "(fnptr \<Rightarrow> cmd) \<Rightarrow> except_thread \<Rightarrow> outcome \<times> except_thread" where
  "delivered H st =
     (let st1 = st\<lparr>events := events st @ hook_events H (except_on_throw st)\<rparr>
      in case buffer st1 of
           Some k \<Rightarrow> (Jump k, st1)
         | None \<Rightarrow> (Thrd_exited EXIT_FAILURE, unhandled_end H st1))"

text \<open>The state a block with plain clauses leaves behind when its try body ended in
  \<open>st1\<close> with a jump to the block (\<open>thrown = Some tag\<close>) or normally
  (\<open>thrown = None\<close>): the events of the selected catch clause, then those of the
  finally clause, and the buffer of the enclosing block installed again.\<close>

definition selected_catch :: "string option \<Rightarrow> plain_clause list \<Rightarrow> plain_clause option" where
  "selected_catch thrown ps = (case thrown of None \<Rightarrow> None | Some tag \<Rightarrow> first_catch tag ps)"

definition block_end ::
  "string option \<Rightarrow> plain_clause list \<Rightarrow> nat option \<Rightarrow> except_thread \<Rightarrow> except_thread" where
  "block_end thrown ps old_buffer st1 =
     st1\<lparr>events := events st1 @ catch_events st1 (selected_catch thrown ps) @ finally_events ps,
         buffer := old_buffer\<rparr>"

text \<open>The state right after \<open>throw(T, v)\<close> has stored the object: the first
  \<open>sizeof(T)\<close> bytes of \<open>current_exception\<close> are those of \<open>v\<close>, and \<open>current_id\<close>
  is the name of \<open>T\<close>.\<close>

definition thrown_state :: "ctype \<Rightarrow> byte list \<Rightarrow> except_thread \<Rightarrow> except_thread" where
  "thrown_state T v st =
     st\<lparr>current_exception := v @ drop (sizeof T) (current_exception st),
        current_id := Some (EXCEPT_TYPE_NAME T)\<rparr>"

text \<open>Sample programs: a block that throws the \<open>int\<close> 5, with clauses for \<open>char\<close>,
  for \<open>int\<close>, for anything, and a finally clause; and a block that catches the \<open>int\<close>
  with \<open>catch_any\<close>.\<close>

definition int5 :: "byte list" where
  "int5 = [5, 0, 0, 0]"




text \<open>A block that catches the \<open>int\<close>, logs it and rethrows, with a finally clause; and
  the clause of an enclosing block that catches the \<open>int\<close> again.\<close>

definition rethrow_clauses :: "plain_clause list" where
  "rethrow_clauses = [Plain_catch T_int (\<lambda>e. [Bound e]) True, Plain_finally [Mark 9]]"

definition outer_clauses :: "plain_clause list" where
  "outer_clauses = [Plain_catch T_int (\<lambda>e. [Mark 2, Bound e]) False]"

definition nested_block :: cmd where
  "nested_block =
     TRY (TRY (Seq (Emits [Mark 1]) (THROW T_int int5)) (map clause_of rethrow_clauses))
       (map clause_of outer_clauses)"

text \<open>The same nesting, where the finally clause of the inner block does cleanup that
  fails and handles its own failure: it throws a \<open>char\<close> and catches it itself. The
  enclosing block has a clause for the \<open>int\<close> and a \<open>catch_any\<close>.\<close>

definition clobbered_block :: cmd where
  "clobbered_block =
     TRY (TRY (THROW T_int int5)
            [CATCH T_int (\<lambda>e. RETHROW),
             FINALLY (TRY (THROW T_char [120]) [CATCH_ANY Skip])])
       [CATCH T_int (\<lambda>e. Emits [Bound e]), CATCH_ANY (Emits [Mark 4])]"

text \<open>The state a step hands on.\<close>

fun after_state :: "after \<Rightarrow> except_thread" where
  "after_state (Finish out st) = st"
| "after_state (Continue c st) = st"

section \<open>Properties of libdefer\<close>



lemma run_cleanups_top:
  "frame_current st = f # fs \<Longrightarrow> n \<le> count f \<Longrightarrow> count f \<le> length (entries f) \<Longrightarrow>
   run_cleanups n st =
     st\<lparr>frame_current := f\<lparr>count := count f - n\<rparr> # fs,
        invoked := invoked st @ rev (take n (drop (count f - n) (entries f)))\<rparr>"
proof (induction n arbitrary: st f)
  case 0
  then show ?case by simp
next
  case (Suc n)
  let ?c = "count f - 1"
  let ?f1 = "f\<lparr>count := ?c\<rparr>"
  let ?st1 = "st\<lparr>frame_current := ?f1 # fs, invoked := invoked st @ [entries f ! ?c]\<rparr>"
  have c: "?c < length (entries f)" using Suc.prems by simp
  have step: "run_cleanups (Suc n) st = run_cleanups n ?st1"
    using Suc.prems(1) c by (simp add: Let_def)
  have ih: "run_cleanups n ?st1 =
      ?st1\<lparr>frame_current := ?f1\<lparr>count := count ?f1 - n\<rparr> # fs,
           invoked := invoked ?st1 @ rev (take n (drop (count ?f1 - n) (entries ?f1)))\<rparr>"
    using Suc.prems by (intro Suc.IH) simp_all
  have idx: "count f - Suc n + n = ?c" using Suc.prems by simp
  have "take (Suc n) (drop (count f - Suc n) (entries f)) =
        take n (drop (count f - Suc n) (entries f)) @ [entries f ! ?c]"
    using Suc.prems c idx by (subst take_Suc_conv_app_nth) (simp_all add: nth_drop)
  then have tk: "rev (take (Suc n) (drop (count f - Suc n) (entries f))) =
        entries f ! ?c # rev (take n (drop (?c - n) (entries f)))"
    by simp
  show ?case
    unfolding step ih tk by simp
qed

lemma deregister_top:
  "frame_current st = f # fs \<Longrightarrow> count f \<le> length (entries f) \<Longrightarrow>
   defer_frame_deregister st =
     st\<lparr>frame_current := fs, invoked := invoked st @ pending f\<rparr>"
  using run_cleanups_top [of st f fs "count f"]
  by (simp add: defer_frame_deregister_def set_ok_def unlink_def pending_def)

lemma defer_fn_store:
  "frame_current st = f # fs \<Longrightarrow> h \<noteq> 0 \<Longrightarrow> count f < DEFER_MAX \<Longrightarrow>
   defer_fn h a st =
     (Returns a, st\<lparr>frame_current :=
        f\<lparr>entries := (entries f)[count f := (h, a)], count := Suc (count f)\<rparr> # fs\<rparr>)"
  by (simp add: defer_fn_def)

lemma defer_all_store:
  "frame_current st = f # fs \<Longrightarrow> \<forall>p \<in> set ps. fst p \<noteq> 0 \<Longrightarrow>
   count f + length ps \<le> DEFER_MAX \<Longrightarrow> length (entries f) = DEFER_MAX \<Longrightarrow>
   defer_all ps st =
     (Returns (), st\<lparr>frame_current :=
        f\<lparr>entries := take (count f) (entries f) @ ps @ drop (count f + length ps) (entries f),
          count := count f + length ps\<rparr> # fs\<rparr>)"
proof (induction ps arbitrary: st f)
  case Nil
  then show ?case by simp
next
  case (Cons p ps)
  obtain h a where p: "p = (h, a)" by (cases p)
  let ?f1 = "f\<lparr>entries := (entries f)[count f := (h, a)], count := Suc (count f)\<rparr>"
  let ?st1 = "st\<lparr>frame_current := ?f1 # fs\<rparr>"
  have h: "h \<noteq> 0" using Cons.prems(2) p by simp
  have lt: "count f < DEFER_MAX" using Cons.prems(3) by simp
  have one: "defer_fn h a st = (Returns a, ?st1)"
    using Cons.prems(1) h lt by (rule defer_fn_store)
  have ih: "defer_all ps ?st1 =
     (Returns (), ?st1\<lparr>frame_current :=
        ?f1\<lparr>entries := take (count ?f1) (entries ?f1) @ ps @ drop (count ?f1 + length ps) (entries ?f1),
          count := count ?f1 + length ps\<rparr> # fs\<rparr>)"
    using Cons.prems by (intro Cons.IH) simp_all
  have lst: "take (Suc (count f)) ((entries f)[count f := (h, a)]) @ ps @
             drop (Suc (count f) + length ps) ((entries f)[count f := (h, a)])
           = take (count f) (entries f) @ ((h, a) # ps) @
             drop (count f + length ((h, a) # ps)) (entries f)"
    using lt Cons.prems(4) by (simp add: take_Suc_conv_app_nth)
  show ?case
    using one ih lst by (simp add: p)
qed

lemma unwind_to_marked:
  "frame_current st = pre @ f # post \<Longrightarrow> can_recover f \<Longrightarrow>
   \<forall>g \<in> set pre. \<not> can_recover g \<and> count g \<le> length (entries g) \<Longrightarrow>
   defer_unwind error True st =
     (LongJmp (frame_context f) error,
      st\<lparr>frame_current := f # post, invoked := invoked st @ concat (map pending pre)\<rparr>)"
proof (induction pre arbitrary: st)
  case Nil
  then show ?case by (simp add: defer_unwind.simps)
next
  case (Cons g pre)
  let ?st1 = "st\<lparr>frame_current := pre @ f # post, invoked := invoked st @ pending g\<rparr>"
  have d: "defer_frame_deregister st = ?st1"
    using Cons.prems by (intro deregister_top) simp_all
  have "defer_unwind error True st = defer_unwind error True ?st1"
    using Cons.prems d by (subst defer_unwind.simps) simp
  also have "\<dots> = (LongJmp (frame_context f) error,
      ?st1\<lparr>frame_current := f # post, invoked := invoked ?st1 @ concat (map pending pre)\<rparr>)"
    using Cons.prems by (intro Cons.IH) simp_all
  finally show ?case by simp
qed

lemma unwind_all:
  "\<forall>g \<in> set (frame_current st). (recoverable \<longrightarrow> \<not> can_recover g) \<and> count g \<le> length (entries g) \<Longrightarrow>
   defer_unwind error recoverable st =
     (Returns (),
      st\<lparr>frame_current := [], invoked := invoked st @ concat (map pending (frame_current st))\<rparr>)"
proof (induction "frame_current st" arbitrary: st)
  case Nil
  then show ?case by (simp add: defer_unwind.simps)
next
  case (Cons g fs)
  let ?st1 = "st\<lparr>frame_current := fs, invoked := invoked st @ pending g\<rparr>"
  have top: "frame_current st = g # fs" using Cons.hyps(2) by simp
  have d: "defer_frame_deregister st = ?st1"
    using Cons.prems top by (intro deregister_top) simp_all
  have "defer_unwind error recoverable st = defer_unwind error recoverable ?st1"
    using Cons.prems top d by (subst defer_unwind.simps) auto
  also have "\<dots> = (Returns (),
      ?st1\<lparr>frame_current := [], invoked := invoked ?st1 @ concat (map pending (frame_current ?st1))\<rparr>)"
    using Cons.prems top by (intro Cons.hyps(1)) simp_all
  finally show ?case using top by simp
qed

lemma run_cleanups_tl:
  "tl (frame_current (run_cleanups n st)) = tl (frame_current st)"
  by (induction n st rule: run_cleanups.induct) (auto simp: Let_def split: list.splits)

lemma deregister_tl:
  "frame_current (defer_frame_deregister st) = tl (frame_current st)"
proof (cases "frame_current st")
  case Nil
  then show ?thesis by (simp add: defer_frame_deregister_def)
next
  case (Cons f fs)
  have "tl (frame_current (set_ok s)) = tl (frame_current s)" for s
    by (simp add: set_ok_def split: list.splits)
  then show ?thesis
    using Cons by (simp add: defer_frame_deregister_def unlink_def run_cleanups_tl)
qed

lemma unwind_suffix:
  "\<exists>pre. frame_current st = pre @ frame_current (snd (defer_unwind error recoverable st))"
proof (induction error recoverable st rule: defer_unwind.induct)
  case (1 error recoverable st)
  show ?case
  proof (cases "frame_current st")
    case Nil
    then show ?thesis by (subst defer_unwind.simps) simp
  next
    case (Cons f fs)
    show ?thesis
    proof (cases "can_recover f \<and> recoverable")
      case True
      then show ?thesis using Cons by (subst defer_unwind.simps) simp
    next
      case False
      from "1" [OF Cons False] obtain pre where
        "frame_current (defer_frame_deregister st) =
           pre @ frame_current (snd (defer_unwind error recoverable (defer_frame_deregister st)))"
        by blast
      then have "frame_current st =
          (f # pre) @ frame_current (snd (defer_unwind error recoverable (defer_frame_deregister st)))"
        using Cons by (simp add: deregister_tl)
      then show ?thesis using Cons False by (subst defer_unwind.simps) auto
    qed
  qed
qed

lemma rev_nth_suffix:
  "xs = pre @ ys \<Longrightarrow> k < length ys \<Longrightarrow> rev xs ! k = rev ys ! k"
  by (simp add: nth_append)

lemma step_frames:
  "(\<exists>pre. frame_current st = pre @ frame_current (snd (defer_step x st))) \<or>
   (\<exists>g. frame_current (snd (defer_step x st)) = g # frame_current st) \<or>
   (\<exists>f g fs. frame_current st = f # fs \<and> frame_current (snd (defer_step x st)) = g # fs \<and>
       (can_recover f \<longrightarrow> can_recover g) \<and>
       ((\<forall>site. x \<noteq> Recover site) \<longrightarrow> frame_context g = frame_context f))"
proof (cases x)
  case Enter
  then show ?thesis
    by (simp add: cyg_profile_func_enter_def defer_frame_register_def)
next
  case Exit
  have "frame_current st = take 1 (frame_current st) @ tl (frame_current st)"
    by (cases "frame_current st") simp_all
  then show ?thesis
    using Exit by (auto simp: cyg_profile_func_exit_def deregister_tl split: list.splits)
next
  case (Defer h a)
  then show ?thesis
    by (cases "frame_current st") (auto simp: forget_def defer_fn_def defer_msg_def)
next
  case (Recover site)
  then show ?thesis
    by (cases "frame_current st") (auto simp: forget_def recover_def defer_frame_context_def)
next
  case (Panic error)
  obtain pre where "frame_current st = pre @ frame_current (snd (defer_unwind error True st))"
    using unwind_suffix by blast
  then show ?thesis
    using Panic by (auto simp: panic_def defer_msg_def split: prod.splits defer_result.splits)
qed

lemma step_keeps_mark:
  assumes "k < length (frame_current st)"
      and "k < length (frame_current (snd (defer_step x st)))"
      and "can_recover (rev (frame_current st) ! k)"
  shows "can_recover (rev (frame_current (snd (defer_step x st))) ! k)"
proof -
  let ?fs = "frame_current st" and ?gs = "frame_current (snd (defer_step x st))"
  consider (pop) pre where "?fs = pre @ ?gs"
    | (push) g where "?gs = g # ?fs"
    | (top) f g fs where "?fs = f # fs" "?gs = g # fs" "can_recover f \<longrightarrow> can_recover g"
    using step_frames [of st x] by blast
  then show ?thesis
  proof cases
    case pop
    then have "rev ?fs ! k = rev ?gs ! k"
      using assms(2) by (rule rev_nth_suffix)
    then show ?thesis using assms(3) by simp
  next
    case push
    then show ?thesis using assms by (simp add: nth_append)
  next
    case top
    then show ?thesis using assms by (auto simp: nth_append split: if_splits)
  qed
qed

lemma step_keeps_context:
  assumes "k < length (frame_current st)"
      and "k < length (frame_current (snd (defer_step x st)))"
      and "\<forall>site. x \<noteq> Recover site"
  shows "frame_context (rev (frame_current (snd (defer_step x st))) ! k) =
         frame_context (rev (frame_current st) ! k)"
proof -
  let ?fs = "frame_current st" and ?gs = "frame_current (snd (defer_step x st))"
  consider (pop) pre where "?fs = pre @ ?gs"
    | (push) g where "?gs = g # ?fs"
    | (top) f g fs where "?fs = f # fs" "?gs = g # fs" "frame_context g = frame_context f"
    using step_frames [of st x] assms(3) by blast
  then show ?thesis
  proof cases
    case pop
    then have "rev ?fs ! k = rev ?gs ! k"
      using assms(2) by (rule rev_nth_suffix)
    then show ?thesis by simp
  next
    case push
    then show ?thesis using assms by (simp add: nth_append)
  next
    case top
    then show ?thesis using assms by (auto simp: nth_append split: if_splits)
  qed
qed

lemma states_start: "st \<in> set (defer_states xs st)"
  by (cases xs) simp_all

lemma states_keep_mark:
  "k < length (frame_current st) \<Longrightarrow> can_recover (rev (frame_current st) ! k) \<Longrightarrow>
   \<forall>s \<in> set (defer_states xs st). k < length (frame_current s) \<Longrightarrow>
   \<forall>s \<in> set (defer_states xs st). can_recover (rev (frame_current s) ! k)"
proof (induction xs arbitrary: st)
  case Nil
  then show ?case by simp
next
  case (Cons x xs)
  obtain r st1 where step: "defer_step x st = (r, st1)" by (cases "defer_step x st")
  have in1: "st1 \<in> set (defer_states (x # xs) st)"
    using step states_start [of st1 xs] by simp
  then have alive1: "k < length (frame_current st1)" using Cons.prems(3) by blast
  have mark1: "can_recover (rev (frame_current st1) ! k)"
    using step_keeps_mark [of k st x] Cons.prems(1,2) alive1 step by simp
  show ?case
  proof (cases "continues r")
    case True
    then have all: "\<forall>s \<in> set (defer_states xs st1). k < length (frame_current s)"
      using Cons.prems(3) step by simp
    show ?thesis
      using Cons.IH [OF alive1 mark1 all] Cons.prems(2) step True by simp
  next
    case False
    then show ?thesis using step mark1 Cons.prems(2) by simp
  qed
qed

lemma states_keep_context:
  "k < length (frame_current st) \<Longrightarrow> \<forall>x \<in> set xs. \<forall>site. x \<noteq> Recover site \<Longrightarrow>
   \<forall>s \<in> set (defer_states xs st). k < length (frame_current s) \<Longrightarrow>
   \<forall>s \<in> set (defer_states xs st).
      frame_context (rev (frame_current s) ! k) = frame_context (rev (frame_current st) ! k)"
proof (induction xs arbitrary: st)
  case Nil
  then show ?case by simp
next
  case (Cons x xs)
  obtain r st1 where step: "defer_step x st = (r, st1)" by (cases "defer_step x st")
  have in1: "st1 \<in> set (defer_states (x # xs) st)"
    using step states_start [of st1 xs] by simp
  then have alive1: "k < length (frame_current st1)" using Cons.prems(3) by blast
  have ctx1: "frame_context (rev (frame_current st1) ! k) = frame_context (rev (frame_current st) ! k)"
    using step_keeps_context [of k st x] Cons.prems(1,2) alive1 step by simp
  show ?case
  proof (cases "continues r")
    case True
    then have all: "\<forall>s \<in> set (defer_states xs st1). k < length (frame_current s)"
      using Cons.prems(3) step by simp
    have rest: "\<forall>x \<in> set xs. \<forall>site. x \<noteq> Recover site" using Cons.prems(2) by simp
    show ?thesis
      using Cons.IH [OF alive1 rest all] ctx1 step True by simp
  next
    case False
    then show ?thesis using step ctx1 by simp
  qed
qed

lemma in_scope_state:
  assumes "length ps \<le> DEFER_MAX" and "\<forall>p \<in> set ps. fst p \<noteq> 0"
  shows "in_scope ps st =
     (Returns (), st\<lparr>frame_current :=
        calloc_frame\<lparr>entries := ps @ replicate (DEFER_MAX - length ps) (0, 0),
                     count := length ps\<rparr> # frame_current st\<rparr>)"
proof -
  let ?st0 = "st\<lparr>frame_current := calloc_frame # frame_current st\<rparr>"
  have "defer_all ps ?st0 =
     (Returns (), ?st0\<lparr>frame_current :=
        calloc_frame\<lparr>entries := take (count calloc_frame) (entries calloc_frame) @ ps @
                         drop (count calloc_frame + length ps) (entries calloc_frame),
          count := count calloc_frame + length ps\<rparr> # frame_current st\<rparr>)"
    using assms by (intro defer_all_store) (simp_all add: calloc_frame_def)
  then show ?thesis
    by (simp add: in_scope_def cyg_profile_func_enter_def defer_frame_register_def calloc_frame_def)
qed

text \<open>
  Claim C4. In a function scope that registers \<open>n \<le> 16\<close> pairs with \<open>defer\<close> (handlers
  not NULL), every call of \<open>defer\<close> returns, and at scope exit each registered pair is
  invoked exactly once, the most recently registered first: the loop of
  \<open>__defer_frame_deregister\<close> appends \<open>rev ps\<close> to the invocations while the frame is
  still linked (the stack is one frame higher than before the scope), and only then is the
  frame unlinked. This is so at the normal exit (\<open>__cyg_profile_func_exit\<close>) and when an
  unwind passes the frame: the unwind continues from the state the normal exit leaves.
\<close>

theorem scope_exit_runs_handlers_reversed:
  assumes "length ps \<le> DEFER_MAX" and "\<forall>p \<in> set ps. fst p \<noteq> 0"
  shows "fst (in_scope ps st) = Returns () \<and>
    invoked (run_cleanups (length ps) (snd (in_scope ps st))) = invoked st @ rev ps \<and>
    length (frame_current (run_cleanups (length ps) (snd (in_scope ps st)))) =
      Suc (length (frame_current st)) \<and>
    cyg_profile_func_exit (snd (in_scope ps st)) =
      (Returns (), st\<lparr>invoked := invoked st @ rev ps\<rparr>) \<and>
    defer_unwind error recoverable (snd (in_scope ps st)) =
      defer_unwind error recoverable (st\<lparr>invoked := invoked st @ rev ps\<rparr>)"
proof -
  let ?f = "calloc_frame\<lparr>entries := ps @ replicate (DEFER_MAX - length ps) (0, 0),
                         count := length ps\<rparr>"
  let ?st1 = "st\<lparr>frame_current := ?f # frame_current st\<rparr>"
  have sc: "in_scope ps st = (Returns (), ?st1)"
    using assms by (rule in_scope_state)
  have top: "frame_current ?st1 = ?f # frame_current st" by simp
  have cnt: "count ?f \<le> length (entries ?f)" by simp
  have loop: "run_cleanups (length ps) ?st1 =
      ?st1\<lparr>frame_current := ?f\<lparr>count := count ?f - length ps\<rparr> # frame_current st,
           invoked := invoked ?st1 @ rev (take (length ps) (drop (count ?f - length ps) (entries ?f)))\<rparr>"
    using top _ cnt by (rule run_cleanups_top) simp
  have pend: "pending ?f = rev ps" by (simp add: pending_def)
  have dereg: "defer_frame_deregister ?st1 = st\<lparr>invoked := invoked st @ rev ps\<rparr>"
    using deregister_top [OF top cnt] pend by simp
  have unw: "defer_unwind error recoverable ?st1 =
             defer_unwind error recoverable (defer_frame_deregister ?st1)"
    by (subst defer_unwind.simps) (simp add: calloc_frame_def)
  show ?thesis
    using sc loop dereg unw by (simp add: cyg_profile_func_exit_def)
qed

theorem scope_exit_runs_handlers_reversed_witness:
  "length [(1, 10), (2, 20), (3::nat, 30::nat)] \<le> DEFER_MAX \<and>
   list_all (\<lambda>p. fst p \<noteq> 0) [(1, 10), (2, 20), (3::nat, 30::nat)] \<and>
   cyg_profile_func_exit (snd (in_scope [(1, 10), (2, 20), (3, 30)] thread_init)) =
     (Returns (), thread_init\<lparr>invoked := [(3, 30), (2, 20), (1, 10)]\<rparr>)"
  using scope_exit_runs_handlers_reversed [of "[(1, 10), (2, 20), (3, 30)]" thread_init 0 False]
  by (simp add: DEFER_MAX_def thread_init_def)

lemma step_keeps_frames_ok:
  assumes "\<forall>g \<in> set (frame_current st). frame_ok g"
  shows "\<forall>g \<in> set (frame_current (snd (defer_step x st))). frame_ok g"
proof (cases x)
  case Enter
  then show ?thesis
    using assms
    by (simp add: cyg_profile_func_enter_def defer_frame_register_def calloc_frame_def
          frame_ok_def)
next
  case Exit
  have "set (tl (frame_current st)) \<subseteq> set (frame_current st)"
    by (cases "frame_current st") auto
  then show ?thesis
    using Exit assms
    by (auto simp: cyg_profile_func_exit_def deregister_tl split: list.splits)
next
  case (Defer h a)
  then show ?thesis
    using assms
    by (cases "frame_current st")
       (auto simp: forget_def defer_fn_def defer_msg_def frame_ok_def)
next
  case (Recover site)
  then show ?thesis
    using assms
    by (cases "frame_current st")
       (auto simp: forget_def recover_def defer_frame_context_def frame_ok_def)
next
  case (Panic error)
  obtain pre where "frame_current st = pre @ frame_current (snd (defer_unwind error True st))"
    using unwind_suffix by blast
  then have "set (frame_current (snd (defer_unwind error True st))) \<subseteq> set (frame_current st)"
    by (metis set_append sup_ge2)
  then show ?thesis
    using Panic assms
    by (auto simp: panic_def defer_msg_def split: prod.splits defer_result.splits)
qed

text \<open>
  Claim C5. On a frame that holds \<open>DEFER_MAX = 16\<close> pairs, a further \<open>defer\<close> writes the
  message of \<open>DEFER_FRAME_OVERFLOW\<close> to stderr and ends the whole process with \<open>abort\<close>;
  the frames are as before, so no 17th pair is stored. And whatever a thread calls, no
  frame ever counts more than 16 pairs.
\<close>

theorem defer_overflow_aborts:
  "(frame_current st = f # fs \<and> count f = DEFER_MAX \<and> cleanup \<noteq> 0 \<longrightarrow>
      defer_fn cleanup arg st =
        (Abort, st\<lparr>defer_stderr := defer_stderr st @
                     [Msg (''Tried to defer more than DEFER_MAX handlers'' @ [CHR 0x0A])]\<rparr>) \<and>
      frame_current (snd (defer_fn cleanup arg st)) = frame_current st) \<and>
   ((\<forall>g \<in> set (frame_current s). frame_ok g) \<longrightarrow>
      (\<forall>g \<in> set (frame_current (snd (defer_step x s))). count g \<le> DEFER_MAX))"
proof (intro conjI impI)
  assume "frame_current st = f # fs \<and> count f = DEFER_MAX \<and> cleanup \<noteq> 0"
  then show "defer_fn cleanup arg st =
        (Abort, st\<lparr>defer_stderr := defer_stderr st @
                     [Msg (''Tried to defer more than DEFER_MAX handlers'' @ [CHR 0x0A])]\<rparr>)"
    and "frame_current (snd (defer_fn cleanup arg st)) = frame_current st"
    by (simp_all add: defer_fn_def defer_msg_def)
next
  assume "\<forall>g \<in> set (frame_current s). frame_ok g"
  then show "\<forall>g \<in> set (frame_current (snd (defer_step x s))). count g \<le> DEFER_MAX"
    using step_keeps_frames_ok [of s x] by (simp add: frame_ok_def)
qed

theorem defer_overflow_aborts_witness:
  "frame_current example_full = hd (frame_current example_full) # [] \<and>
   count (hd (frame_current example_full)) = DEFER_MAX \<and> (6::nat) \<noteq> 0 \<and>
   fst (defer_fn 6 60 example_full) = Abort \<and>
   frame_current (snd (defer_fn 6 60 example_full)) = frame_current example_full \<and>
   list_all frame_ok (frame_current example_full) \<and>
   list_all (\<lambda>g. count g \<le> DEFER_MAX) (frame_current (snd (defer_step (Defer 6 60) example_full)))"
proof -
  have h: "frame_current example_full = hd (frame_current example_full) # [] \<and>
    count (hd (frame_current example_full)) = DEFER_MAX \<and> (6::nat) \<noteq> 0"
    by (simp add: example_full_def DEFER_MAX_def)
  have ok: "\<forall>g \<in> set (frame_current example_full). frame_ok g"
    by (simp add: example_full_def frame_ok_def DEFER_MAX_def)
  note t = defer_overflow_aborts
    [of example_full "hd (frame_current example_full)" "[]" 6 60 example_full "Defer 6 60"]
  from t h have a: "fst (defer_fn 6 60 example_full) = Abort"
    and b: "frame_current (snd (defer_fn 6 60 example_full)) = frame_current example_full"
    by simp_all
  from t ok have c: "\<forall>g \<in> set (frame_current (snd (defer_step (Defer 6 60) example_full))).
      count g \<le> DEFER_MAX"
    by blast
  show ?thesis
    using h ok a b c by (simp add: list_all_iff)
qed

text \<open>
  Claim C3. \<open>panic(error)\<close> with \<open>error \<noteq> 0\<close>, when the frame \<open>f\<close> is the innermost
  frame of the stack that called \<open>recover()\<close>: control resumes at the continuation captured
  in \<open>f\<close> and \<open>recover()\<close> returns \<open>error\<close> there; the frames \<open>pre\<close> above \<open>f\<close> have
  been deregistered, each running its pending pairs, innermost frame first; \<open>f\<close> is the
  current frame, unchanged, and none of its own pairs has run.
\<close>

theorem panic_transfers_to_innermost_recover:
  assumes "error \<noteq> 0"
      and "frame_current st = pre @ f # post"
      and "can_recover f"
      and "\<forall>g \<in> set pre. \<not> can_recover g \<and> frame_ok g"
  shows "resume (fst (panic error st)) = Some (frame_context f, error) \<and>
         snd (panic error st) =
           st\<lparr>frame_current := f # post, invoked := invoked st @ concat (map pending pre)\<rparr>"
proof -
  have "\<forall>g \<in> set pre. \<not> can_recover g \<and> count g \<le> length (entries g)"
    using assms(4) by (simp add: frame_ok_def)
  then have "defer_unwind error True st =
     (LongJmp (frame_context f) error,
      st\<lparr>frame_current := f # post, invoked := invoked st @ concat (map pending pre)\<rparr>)"
    using assms(2,3) by (intro unwind_to_marked) simp_all
  then show ?thesis
    using assms(1) by (simp add: panic_def resume_def longjmp_val_def)
qed

theorem panic_transfers_to_innermost_recover_witness:
  "(22::int) \<noteq> 0 \<and> frame_current example_thread = [example_inner] @ example_outer # [] \<and>
   can_recover example_outer \<and> \<not> can_recover example_inner \<and> frame_ok example_inner \<and>
   resume (fst (panic 22 example_thread)) = Some (7, 22) \<and>
   frame_current (snd (panic 22 example_thread)) = [example_outer] \<and>
   invoked (snd (panic 22 example_thread)) = [(3, 30), (2, 20)]"
  using panic_transfers_to_innermost_recover
          [of 22 example_thread "[example_inner]" example_outer "[]"]
  by (simp add: example_thread_def example_inner_def example_outer_def frame_ok_def
        DEFER_MAX_def pending_def)

text \<open>
  Claim C9, as stated, fails: the mark \<open>can_recover\<close> is a field of each frame, and a
  function that called \<open>recover()\<close> and then calls a function that calls \<open>recover()\<close>
  leaves two marked frames on the stack.
\<close>

theorem two_marked_frames_counterexample:
  "\<not> length (marked_frames
        (snd (recover 8 (snd (cyg_profile_func_enter True
          (snd (recover 7 (snd (cyg_profile_func_enter True thread_init)))))))))
      \<le> 1"
  by (simp add: marked_frames_def recover_def defer_frame_context_def cyg_profile_func_enter_def
        defer_frame_register_def calloc_frame_def thread_init_def)

text \<open>
  Claim C9, amended. \<open>recover()\<close> marks the current frame only, and a repeated call in the
  same frame re-marks that frame: the continuation of the latest call replaces the earlier
  one and the number of marked frames of the stack does not change. Several frames of a
  stack can be marked at once; a recoverable unwind has one target, the innermost marked
  frame, here the current frame at the continuation of the latest call.
\<close>

theorem recover_remarks_current_frame:
  assumes "frame_current st = f # fs"
  shows "recover s1 st =
           (Returns 0, st\<lparr>frame_current := f\<lparr>frame_context := s1, can_recover := True\<rparr> # fs\<rparr>) \<and>
         recover s2 (snd (recover s1 st)) =
           (Returns 0, st\<lparr>frame_current := f\<lparr>frame_context := s2, can_recover := True\<rparr> # fs\<rparr>) \<and>
         length (marked_frames (snd (recover s1 st))) = Suc (length (filter can_recover fs)) \<and>
         length (marked_frames (snd (recover s2 (snd (recover s1 st))))) =
           length (marked_frames (snd (recover s1 st))) \<and>
         defer_unwind error True (snd (recover s2 (snd (recover s1 st)))) =
           (LongJmp s2 error, snd (recover s2 (snd (recover s1 st))))"
proof -
  have r1: "recover s1 st =
      (Returns 0, st\<lparr>frame_current := f\<lparr>frame_context := s1, can_recover := True\<rparr> # fs\<rparr>)"
    using assms by (simp add: recover_def defer_frame_context_def)
  have r2: "recover s2 (snd (recover s1 st)) =
      (Returns 0, st\<lparr>frame_current := f\<lparr>frame_context := s2, can_recover := True\<rparr> # fs\<rparr>)"
    unfolding r1 by (simp add: recover_def defer_frame_context_def)
  have u: "defer_unwind error True (snd (recover s2 (snd (recover s1 st)))) =
           (LongJmp s2 error, snd (recover s2 (snd (recover s1 st))))"
    unfolding r2 by (subst defer_unwind.simps) simp
  show ?thesis
    using r1 r2 u by (simp add: marked_frames_def)
qed

theorem recover_remarks_current_frame_witness:
  "frame_current example_thread = example_inner # [example_outer] \<and>
   length (marked_frames (snd (recover 8 example_thread))) = 2 \<and>
   length (marked_frames (snd (recover 9 (snd (recover 8 example_thread))))) = 2 \<and>
   fst (defer_unwind 22 True (snd (recover 9 (snd (recover 8 example_thread))))) = LongJmp 9 22"
proof -
  have h: "frame_current example_thread = example_inner # [example_outer]"
    by (simp add: example_thread_def)
  have m: "length (filter can_recover [example_outer]) = 1"
    by (simp add: example_outer_def)
  note t = recover_remarks_current_frame [OF h, of 8 9 22]
  from t have a: "length (marked_frames (snd (recover 8 example_thread))) =
      Suc (length (filter can_recover [example_outer]))"
    by blast
  from t have b: "length (marked_frames (snd (recover 9 (snd (recover 8 example_thread))))) =
      length (marked_frames (snd (recover 8 example_thread)))"
    by blast
  from t have c: "defer_unwind 22 True (snd (recover 9 (snd (recover 8 example_thread)))) =
      (LongJmp 9 22, snd (recover 9 (snd (recover 8 example_thread))))"
    by blast
  show ?thesis
    using h a b c m by simp
qed

text \<open>
  Claim C10. A frame that is marked stays marked in every state the thread goes through
  for as long as the frame is on the stack (frame \<open>k\<close>, counted from the bottom of the
  stack), whatever the thread calls; and when none of the calls is \<open>recover()\<close> its
  captured continuation is the same throughout. A recoverable panic that reaches the frame
  jumps to that continuation, and so does a second panic after the first: the frame stays
  current and unchanged, and nothing is run by the second panic.
\<close>

theorem recover_mark_is_permanent:
  "(k < length (frame_current st) \<and> can_recover (rev (frame_current st) ! k) \<and>
    (\<forall>s \<in> set (defer_states xs st). k < length (frame_current s))
      \<longrightarrow> (\<forall>s \<in> set (defer_states xs st). can_recover (rev (frame_current s) ! k)) \<and>
          ((\<forall>x \<in> set xs. \<forall>site. x \<noteq> Recover site) \<longrightarrow>
           (\<forall>s \<in> set (defer_states xs st).
              frame_context (rev (frame_current s) ! k) =
              frame_context (rev (frame_current st) ! k)))) \<and>
   (e1 \<noteq> 0 \<and> e2 \<noteq> 0 \<and> frame_current st = pre @ f # post \<and> can_recover f \<and>
    (\<forall>g \<in> set pre. \<not> can_recover g \<and> frame_ok g)
      \<longrightarrow> fst (panic e1 st) = LongJmp (frame_context f) e1 \<and>
          panic e2 (snd (panic e1 st)) = (LongJmp (frame_context f) e2, snd (panic e1 st)) \<and>
          frame_current (snd (panic e1 st)) = f # post)"
proof (intro conjI impI)
  assume a: "k < length (frame_current st) \<and> can_recover (rev (frame_current st) ! k) \<and>
    (\<forall>s \<in> set (defer_states xs st). k < length (frame_current s))"
  then show "\<forall>s \<in> set (defer_states xs st). can_recover (rev (frame_current s) ! k)"
    using states_keep_mark [of k st xs] by blast
  assume "\<forall>x \<in> set xs. \<forall>site. x \<noteq> Recover site"
  then show "\<forall>s \<in> set (defer_states xs st).
      frame_context (rev (frame_current s) ! k) = frame_context (rev (frame_current st) ! k)"
    using a states_keep_context [of k st xs] by blast
next
  assume b: "e1 \<noteq> 0 \<and> e2 \<noteq> 0 \<and> frame_current st = pre @ f # post \<and> can_recover f \<and>
    (\<forall>g \<in> set pre. \<not> can_recover g \<and> frame_ok g)"
  then have pre: "\<forall>g \<in> set pre. \<not> can_recover g \<and> count g \<le> length (entries g)"
    by (simp add: frame_ok_def)
  let ?st1 = "st\<lparr>frame_current := f # post, invoked := invoked st @ concat (map pending pre)\<rparr>"
  have u1: "defer_unwind e1 True st = (LongJmp (frame_context f) e1, ?st1)"
    using b pre by (intro unwind_to_marked) simp_all
  have u2: "defer_unwind e2 True ?st1 = (LongJmp (frame_context f) e2, ?st1)"
    using b by (subst defer_unwind.simps) simp
  have p1: "panic e1 st = (LongJmp (frame_context f) e1, ?st1)"
    using b u1 by (simp add: panic_def)
  show "fst (panic e1 st) = LongJmp (frame_context f) e1" using p1 by simp
  show "panic e2 (snd (panic e1 st)) = (LongJmp (frame_context f) e2, snd (panic e1 st))"
    using b u2 p1 by (simp add: panic_def)
  show "frame_current (snd (panic e1 st)) = f # post" using p1 by simp
qed

theorem recover_mark_is_permanent_witness:
  "0 < length (frame_current example_thread) \<and>
   can_recover (rev (frame_current example_thread) ! 0) \<and>
   list_all (\<lambda>s. 0 < length (frame_current s))
     (defer_states [Defer 4 40, Panic 22, Enter, Panic 5] example_thread) \<and>
   list_all (\<lambda>s. can_recover (rev (frame_current s) ! 0) \<and>
                 frame_context (rev (frame_current s) ! 0) = 7)
     (defer_states [Defer 4 40, Panic 22, Enter, Panic 5] example_thread) \<and>
   (22::int) \<noteq> 0 \<and> (5::int) \<noteq> 0 \<and>
   frame_current example_thread = [example_inner] @ example_outer # [] \<and>
   can_recover example_outer \<and> \<not> can_recover example_inner \<and> frame_ok example_inner \<and>
   panic 5 (snd (panic 22 example_thread)) = (LongJmp 7 5, snd (panic 22 example_thread))"
proof -
  have alive: "\<forall>s \<in> set (defer_states [Defer 4 40, Panic 22, Enter, Panic 5] example_thread).
        0 < length (frame_current s)"
    by code_simp
  have hyp: "(22::int) \<noteq> 0 \<and> (5::int) \<noteq> 0 \<and>
    frame_current example_thread = [example_inner] @ example_outer # [] \<and>
    can_recover example_outer \<and> \<not> can_recover example_inner \<and> frame_ok example_inner"
    by (simp add: example_thread_def example_inner_def example_outer_def frame_ok_def DEFER_MAX_def)
  have noRec: "\<forall>x \<in> set [Defer 4 40, Panic 22, Enter, Panic 5]. \<forall>site. x \<noteq> Recover site"
    by simp
  have start: "0 < length (frame_current example_thread) \<and>
    can_recover (rev (frame_current example_thread) ! 0) \<and>
    frame_context (rev (frame_current example_thread) ! 0) = 7"
    by (simp add: example_thread_def example_outer_def)
  show ?thesis
    using recover_mark_is_permanent
      [of 0 example_thread "[Defer 4 40, Panic 22, Enter, Panic 5]" 22 5
          "[example_inner]" example_outer "[]"]
      alive hyp noRec start
    by (simp add: example_outer_def list_all_iff)
qed

section \<open>Properties of libexcept\<close>

subsection \<open>Running commands\<close>

lemma exec_finish: "step_of H c st = Now (Finish out st1) \<Longrightarrow> exec H c st = Some (out, st1)"
  by (subst exec.simps) simp

lemma exec_continue: "step_of H c st = Now (Continue c1 st1) \<Longrightarrow> exec H c st = exec H c1 st1"
  by (subst exec.simps) simp

lemma exec_sub:
  "step_of H c st = Sub c1 st1 k \<Longrightarrow> exec H c1 st1 = Some (out, st2) \<Longrightarrow>
   exec H c st = (case k out st2 of
                    Finish out3 st3 \<Rightarrow> Some (out3, st3)
                  | Continue c3 st3 \<Rightarrow> exec H c3 st3)"
  by (subst exec.simps) simp

lemma exec_Emits: "exec H (Emits es) st = Some (Normal, st\<lparr>events := events st @ es\<rparr>)"
  by (rule exec_finish) simp

lemma exec_Emits_RETHROW:
  "exec H (Seq (Emits es) RETHROW) st = Some (Break, st\<lparr>events := events st @ es\<rparr>)"
proof -
  have step: "step_of H (Seq (Emits es) RETHROW) st =
      Sub (Emits es) st
        (\<lambda>out st1. case out of Normal \<Rightarrow> Continue RETHROW st1 | other \<Rightarrow> Finish other st1)"
    by simp
  have "exec H (Seq (Emits es) RETHROW) st = exec H RETHROW (st\<lparr>events := events st @ es\<rparr>)"
    by (subst exec_sub [OF step exec_Emits]) simp
  also have "\<dots> = Some (Break, st\<lparr>events := events st @ es\<rparr>)"
    by (rule exec_finish) simp
  finally show ?thesis .
qed

lemma exec_loop_exit: "exec H (Stage_loop body cs old loc 4 e) st = Some (Normal, st)"
  by (rule exec_finish) (simp add: stage_loop_def)

lemma exec_loop_clear:
  "exec H (Stage_loop body cs old loc 3 0) st = Some (Normal, st\<lparr>buffer := old\<rparr>)"
proof -
  have "exec H (Stage_loop body cs old loc 3 0) st =
        exec H (Stage_loop body cs old loc 4 0) (st\<lparr>buffer := old\<rparr>)"
    by (rule exec_continue) (simp add: stage_loop_def EXCEPT_STAGE_PROPAGATE_def)
  then show ?thesis by (simp add: exec_loop_exit)
qed

lemma select_skip:
  "stage = 0 \<or> stage = 1 \<and> e = 0 \<Longrightarrow> select_clause stage e st cs = Nothing"
  by (induction stage e st cs rule: select_clause.induct)
     (auto simp: EXCEPT_STAGE_CATCH_def EXCEPT_STAGE_FINALLY_def)

lemma select_finally:
  "select_clause 2 e st (map clause_of ps) =
     (case find is_finally ps of None \<Rightarrow> Nothing | Some p \<Rightarrow> Selected (clause_of p))"
proof (induction ps)
  case Nil
  then show ?case by simp
next
  case (Cons p ps)
  then show ?case
    by (cases p) (simp_all add: EXCEPT_STAGE_CATCH_def EXCEPT_STAGE_FINALLY_def)
qed

lemma select_catch:
  "e \<noteq> 0 \<Longrightarrow> current_id st = Some tag \<Longrightarrow>
   select_clause 1 e st (map clause_of ps) =
     (case first_catch tag ps of None \<Rightarrow> Nothing | Some p \<Rightarrow> Selected (clause_of p))"
proof (induction ps)
  case Nil
  then show ?case by (simp add: first_catch_def)
next
  case (Cons p ps)
  then show ?case
    by (cases p)
       (auto simp: first_catch_def EXCEPT_STAGE_CATCH_def EXCEPT_STAGE_FINALLY_def
          except_personality_def)
qed

lemma exec_loop_skip:
  "stage = 0 \<and> e \<noteq> 0 \<or> stage = 1 \<and> e = 0 \<Longrightarrow>
   exec H (Stage_loop body cs old loc stage e) st =
   exec H (Stage_loop body cs old loc (stage + 1) e) st"
  by (rule exec_continue)
     (auto simp: stage_loop_def select_skip EXCEPT_STAGE_PROPAGATE_def
        EXCEPT_STAGE_UNEXPECTED_def EXCEPT_STAGE_TRY_def)

lemma exec_loop_finally:
  "exec H (Stage_loop body (map clause_of ps) old loc 2 e) st =
   exec H (Stage_loop body (map clause_of ps) old loc 3 e)
     (st\<lparr>events := events st @ finally_events ps\<rparr>)"
proof (cases "find is_finally ps")
  case None
  then have "exec H (Stage_loop body (map clause_of ps) old loc 2 e) st =
             exec H (Stage_loop body (map clause_of ps) old loc (2 + 1) e) st"
    by (intro exec_continue)
       (simp add: stage_loop_def select_finally EXCEPT_STAGE_PROPAGATE_def
          EXCEPT_STAGE_UNEXPECTED_def EXCEPT_STAGE_TRY_def)
  then show ?thesis using None by (simp add: finally_events_def)
next
  case (Some p)
  then have "is_finally p" by (auto dest: find_Some_iff [THEN iffD1])
  then obtain es where p: "p = Plain_finally es" by (cases p) simp_all
  have step: "step_of H (Stage_loop body (map clause_of ps) old loc 2 e) st =
      Sub (Emits es) st
        (loop_after body (map clause_of ps) old loc (Next (EXCEPT_STAGE_FINALLY + 1) e)
           (Next (EXCEPT_STAGE_UNEXPECTED + 1) e) EXCEPT_STAGE_UNEXPECTED)"
    using Some p
    by (simp add: stage_loop_def select_finally EXCEPT_STAGE_PROPAGATE_def
          EXCEPT_STAGE_UNEXPECTED_def EXCEPT_STAGE_TRY_def)
  show ?thesis
    using Some p
    by (subst exec_sub [OF step exec_Emits])
       (simp add: loop_after_def finally_events_def EXCEPT_STAGE_FINALLY_def)
qed


lemma exec_block_body_normal:
  "exec H body (st\<lparr>buffer := Some (fresh_buffer (buffer st))\<rparr>) = Some (Normal, st1) \<Longrightarrow>
   exec H (TRY body cs) st =
   exec H (Stage_loop body cs (buffer st) (fresh_buffer (buffer st)) 1 0) st1"
proof -
  assume body: "exec H body (st\<lparr>buffer := Some (fresh_buffer (buffer st))\<rparr>) = Some (Normal, st1)"
  let ?old = "buffer st" and ?loc = "fresh_buffer (buffer st)"
  let ?st0 = "st\<lparr>buffer := Some ?loc\<rparr>"
  have enter: "exec H (TRY body cs) st = exec H (Stage_loop body cs ?old ?loc 0 0) ?st0"
    by (rule exec_continue) simp
  have step: "step_of H (Stage_loop body cs ?old ?loc 0 0) ?st0 =
      Sub body ?st0 (loop_after body cs ?old ?loc (Next (0 + 1) 0) Leave 0)"
    by (simp add: stage_loop_def EXCEPT_STAGE_PROPAGATE_def EXCEPT_STAGE_UNEXPECTED_def
          EXCEPT_STAGE_TRY_def)
  show ?thesis
    unfolding enter by (subst exec_sub [OF step body]) (simp add: loop_after_def)
qed

lemma exec_block_body_jump:
  "exec H body (st\<lparr>buffer := Some (fresh_buffer (buffer st))\<rparr>) =
     Some (Jump (fresh_buffer (buffer st)), st1) \<Longrightarrow>
   exec H (TRY body cs) st =
   exec H (Stage_loop body cs (buffer st) (fresh_buffer (buffer st)) 1 1) st1"
proof -
  assume body: "exec H body (st\<lparr>buffer := Some (fresh_buffer (buffer st))\<rparr>) =
     Some (Jump (fresh_buffer (buffer st)), st1)"
  let ?old = "buffer st" and ?loc = "fresh_buffer (buffer st)"
  let ?st0 = "st\<lparr>buffer := Some ?loc\<rparr>"
  have enter: "exec H (TRY body cs) st = exec H (Stage_loop body cs ?old ?loc 0 0) ?st0"
    by (rule exec_continue) simp
  have step: "step_of H (Stage_loop body cs ?old ?loc 0 0) ?st0 =
      Sub body ?st0 (loop_after body cs ?old ?loc (Next (0 + 1) 0) Leave 0)"
    by (simp add: stage_loop_def EXCEPT_STAGE_PROPAGATE_def EXCEPT_STAGE_UNEXPECTED_def
          EXCEPT_STAGE_TRY_def)
  have "exec H (Stage_loop body cs ?old ?loc 0 0) ?st0 =
        exec H (Stage_loop body cs ?old ?loc 0 1) st1"
    by (subst exec_sub [OF step body]) (simp add: loop_after_def)
  also have "\<dots> = exec H (Stage_loop body cs ?old ?loc (0 + 1) 1) st1"
    by (rule exec_loop_skip) simp
  finally show ?thesis unfolding enter by simp
qed

lemma exec_guarded_hook:
  assumes "f \<noteq> 0" and "H f = Emits es"
      and "c = Call_on_throw \<and> except_on_throw st = f \<or>
           c = Call_on_unhandled \<and> except_on_unhandled st = f \<or>
           c = Call_on_unexpected \<and> except_on_unexpected st = f"
  shows "exec H (TRY c [CATCH_ANY handler]) st = Some (Normal, st\<lparr>events := events st @ es\<rparr>)"
proof -
  let ?old = "buffer st" and ?loc = "fresh_buffer (buffer st)"
  let ?st0 = "st\<lparr>buffer := Some ?loc\<rparr>"
  let ?st1 = "?st0\<lparr>events := events ?st0 @ es\<rparr>"
  have "exec H c ?st0 = exec H (Emits es) ?st0"
    using assms by (intro exec_continue) (auto simp: call_hook_def)
  then have body: "exec H c ?st0 = Some (Normal, ?st1)"
    by (simp add: exec_Emits)
  have "exec H (TRY c [CATCH_ANY handler]) st =
        exec H (Stage_loop c [CATCH_ANY handler] ?old ?loc 1 0) ?st1"
    using body by (rule exec_block_body_normal)
  also have "\<dots> = exec H (Stage_loop c [CATCH_ANY handler] ?old ?loc (1 + 1) 0) ?st1"
    by (rule exec_loop_skip) simp
  also have "\<dots> = exec H (Stage_loop c [CATCH_ANY handler] ?old ?loc (2 + 1) 0) ?st1"
    by (rule exec_continue)
       (simp add: stage_loop_def EXCEPT_STAGE_PROPAGATE_def EXCEPT_STAGE_UNEXPECTED_def
          EXCEPT_STAGE_TRY_def EXCEPT_STAGE_CATCH_def)
  also have "\<dots> = Some (Normal, ?st1\<lparr>buffer := ?old\<rparr>)"
    by (simp add: exec_loop_clear)
  finally show ?thesis by simp
qed

lemma exec_Except_unhandled_quiet:
  assumes "quiet H (except_on_unhandled st)"
  shows "exec H Except_unhandled st = Some (Thrd_exited EXIT_FAILURE, unhandled_end H st)"
proof (cases "except_on_unhandled st = 0")
  case True
  then have "exec H Except_unhandled st = exec H (Thrd_exit EXIT_FAILURE) (print_unhandled st)"
    by (intro exec_continue) (simp add: except_unhandled_def)
  also have "\<dots> = Some (Thrd_exited EXIT_FAILURE, print_unhandled st)"
    by (rule exec_finish) simp
  finally show ?thesis using True by (simp add: unhandled_end_def)
next
  case False
  then obtain es where es: "H (except_on_unhandled st) = Emits es"
    using assms by (auto simp: quiet_def split: cmd.splits)
  have step: "step_of H Except_unhandled st =
      Sub (TRY Call_on_unhandled [CATCH_ANY Except_unexpected]) st
        (\<lambda>out st1. case out of
                      Normal \<Rightarrow> Continue (Thrd_exit EXIT_FAILURE) st1
                    | other \<Rightarrow> Finish other st1)"
    using False by (simp add: except_unhandled_def)
  have hook: "exec H (TRY Call_on_unhandled [CATCH_ANY Except_unexpected]) st =
      Some (Normal, st\<lparr>events := events st @ es\<rparr>)"
    using False es by (intro exec_guarded_hook) auto
  have "exec H Except_unhandled st =
        exec H (Thrd_exit EXIT_FAILURE) (st\<lparr>events := events st @ es\<rparr>)"
    by (subst exec_sub [OF step hook]) simp
  also have "\<dots> = Some (Thrd_exited EXIT_FAILURE, st\<lparr>events := events st @ es\<rparr>)"
    by (rule exec_finish) simp
  finally show ?thesis using False es by (simp add: unhandled_end_def hook_events_def)
qed

lemma exec_Except_throw_quiet:
  assumes "store_exception ident n v st = Some st1"
      and "quiet H (except_on_throw st)"
      and "buffer st = None \<longrightarrow> quiet H (except_on_unhandled st)"
  shows "exec H (Except_throw ident n v) st = Some (delivered H st1)"
proof -
  have hooks: "except_on_throw st1 = except_on_throw st"
              "except_on_unhandled st1 = except_on_unhandled st"
              "buffer st1 = buffer st"
    using assms(1) by (auto simp: store_exception_def split: option.splits)
  let ?st2 = "st1\<lparr>events := events st1 @ hook_events H (except_on_throw st1)\<rparr>"
  have deliver: "(case deliver ?st2 of
                    Finish out3 st3 \<Rightarrow> Some (out3, st3)
                  | Continue c3 st3 \<Rightarrow> exec H c3 st3) = Some (delivered H st1)"
  proof (cases "buffer st1")
    case None
    have "quiet H (except_on_unhandled ?st2)" using assms(3) hooks None by simp
    then have "exec H Except_unhandled ?st2 = Some (Thrd_exited EXIT_FAILURE, unhandled_end H ?st2)"
      by (rule exec_Except_unhandled_quiet)
    then show ?thesis using None by (simp add: deliver_def delivered_def Let_def)
  next
    case (Some k)
    then show ?thesis by (simp add: deliver_def delivered_def Let_def)
  qed
  show ?thesis
  proof (cases "except_on_throw st1 = 0")
    case True
    then have step: "step_of H (Except_throw ident n v) st = Now (deliver st1)"
      using assms(1) by (simp add: except_throw_def)
    have same: "?st2 = st1" using True by (simp add: hook_events_def)
    show ?thesis
      using deliver step unfolding same
      by (cases "deliver st1") (simp_all add: exec_finish exec_continue)
  next
    case False
    then obtain es where es: "H (except_on_throw st1) = Emits es"
      using assms(2) hooks by (auto simp: quiet_def split: cmd.splits)
    have step: "step_of H (Except_throw ident n v) st =
        Sub (TRY Call_on_throw [CATCH_ANY Except_unexpected]) st1
          (\<lambda>out st2. case out of Normal \<Rightarrow> deliver st2 | other \<Rightarrow> Finish other st2)"
      using assms(1) False by (simp add: except_throw_def)
    have hook: "exec H (TRY Call_on_throw [CATCH_ANY Except_unexpected]) st1 =
        Some (Normal, st1\<lparr>events := events st1 @ es\<rparr>)"
      using False es by (intro exec_guarded_hook) auto
    have ev: "hook_events H (except_on_throw st1) = es"
      using False es by (simp add: hook_events_def)
    show ?thesis
      using deliver unfolding ev by (subst exec_sub [OF step hook]) simp
  qed
qed


lemma exec_loop_catch:
  assumes "current_id st = Some tag"
  shows "exec H (Stage_loop body (map clause_of ps) old loc 1 1) st =
         exec H (Stage_loop body (map clause_of ps) old loc 2
                   (if consumes (first_catch tag ps) then 0 else 1))
           (st\<lparr>events := events st @ catch_events st (first_catch tag ps)\<rparr>)"
proof -
  let ?cs = "map clause_of ps"
  have sel: "select_clause 1 1 st ?cs =
      (case first_catch tag ps of None \<Rightarrow> Nothing | Some p \<Rightarrow> Selected (clause_of p))"
    using assms by (intro select_catch) simp_all
  note stage = stage_loop_def EXCEPT_STAGE_PROPAGATE_def EXCEPT_STAGE_UNEXPECTED_def
    EXCEPT_STAGE_TRY_def
  show ?thesis
  proof (cases "first_catch tag ps")
    case None
    then have "exec H (Stage_loop body ?cs old loc 1 1) st =
               exec H (Stage_loop body ?cs old loc (1 + 1) 1) st"
      using sel by (intro exec_continue) (simp add: stage)
    then show ?thesis using None by simp
  next
    case (Some p)
    show ?thesis
    proof (cases p)
      case (Plain_catch T f r)
      let ?h = "\<lambda>e. if r then Seq (Emits (f e)) RETHROW else Emits (f e)"
      have step: "step_of H (Stage_loop body ?cs old loc 1 1) st =
          Sub (?h (bound_object T st)) st
            (loop_after body ?cs old loc (Next (EXCEPT_STAGE_CATCH + 1) 0)
               (Next (EXCEPT_STAGE_CATCH + 1) 1) EXCEPT_STAGE_UNEXPECTED)"
        using sel Some Plain_catch by (simp add: stage)
      have run: "exec H (?h (bound_object T st)) st =
          Some (if r then Break else Normal, st\<lparr>events := events st @ f (bound_object T st)\<rparr>)"
        by (simp add: exec_Emits exec_Emits_RETHROW)
      show ?thesis
        using Some Plain_catch
        by (subst exec_sub [OF step run]) (simp add: loop_after_def EXCEPT_STAGE_CATCH_def)
    next
      case (Plain_catch_any es r)
      let ?h = "if r then Seq (Emits es) RETHROW else Emits es"
      have step: "step_of H (Stage_loop body ?cs old loc 1 1) st =
          Sub ?h st
            (loop_after body ?cs old loc (Next (EXCEPT_STAGE_CATCH + 1) 0)
               (Next (EXCEPT_STAGE_CATCH + 1) 1) EXCEPT_STAGE_UNEXPECTED)"
        using sel Some Plain_catch_any by (simp add: stage)
      have run: "exec H ?h st =
          Some (if r then Break else Normal, st\<lparr>events := events st @ es\<rparr>)"
        by (simp add: exec_Emits exec_Emits_RETHROW)
      show ?thesis
        using Some Plain_catch_any
        by (subst exec_sub [OF step run]) (simp add: loop_after_def EXCEPT_STAGE_CATCH_def)
    next
      case (Plain_finally es)
      have "catches tag p"
        using Some by (auto simp: first_catch_def find_Some_iff)
      then have False using Plain_finally by simp
      then show ?thesis ..
    qed
  qed
qed

lemma exec_loop_propagate:
  assumes "e \<noteq> 0" and "quiet H (except_on_throw st)"
      and "old = None \<longrightarrow> quiet H (except_on_unhandled st)"
  shows "exec H (Stage_loop body cs old (fresh_buffer old) 3 e) st =
         Some (delivered H (st\<lparr>buffer := old\<rparr>))"
proof -
  let ?st0 = "st\<lparr>buffer := old\<rparr>"
  have step: "step_of H (Stage_loop body cs old (fresh_buffer old) 3 e) st =
      Sub (Except_throw None 0 []) ?st0
        (loop_after body cs old (fresh_buffer old) (Next (3 + 1) e) Pass 3)"
    using assms(1) by (simp add: stage_loop_def EXCEPT_STAGE_PROPAGATE_def)
  have thr: "exec H (Except_throw None 0 []) ?st0 = Some (delivered H ?st0)"
    using assms(2,3) by (intro exec_Except_throw_quiet) (simp_all add: store_exception_def)
  obtain out st2 where d: "delivered H ?st0 = (out, st2)" by (cases "delivered H ?st0")
  have out: "out = Thrd_exited EXIT_FAILURE \<or> (\<exists>k. old = Some k \<and> out = Jump k)"
    using d by (auto simp: delivered_def Let_def split: option.splits)
  have "(case loop_after body cs old (fresh_buffer old) (Next (3 + 1) e) Pass 3 out st2 of
           Finish out3 st3 \<Rightarrow> Some (out3, st3)
         | Continue c3 st3 \<Rightarrow> exec H c3 st3) = Some (out, st2)"
    using out by (auto simp: loop_after_def fresh_buffer_def)
  moreover have "exec H (Except_throw None 0 []) ?st0 = Some (out, st2)"
    using thr d by simp
  ultimately show ?thesis
    using d by (simp add: exec_sub [OF step])
qed


lemma block_thrown:
  assumes "exec H body (st\<lparr>buffer := Some (fresh_buffer (buffer st))\<rparr>) =
             Some (Jump (fresh_buffer (buffer st)), st1)"
      and "current_id st1 = Some tag"
      and "quiet H (except_on_throw st1)"
      and "\<not> consumes (first_catch tag ps) \<and> buffer st = None \<longrightarrow>
           quiet H (except_on_unhandled st1)"
  shows "exec H (TRY body (map clause_of ps)) st =
     (if consumes (first_catch tag ps)
      then Some (Normal, block_end (Some tag) ps (buffer st) st1)
      else Some (delivered H (block_end (Some tag) ps (buffer st) st1)))"
proof -
  let ?cs = "map clause_of ps" and ?old = "buffer st" and ?loc = "fresh_buffer (buffer st)"
  let ?e = "if consumes (first_catch tag ps) then 0 else 1 :: int"
  let ?st2 = "st1\<lparr>events := events st1 @ catch_events st1 (first_catch tag ps)\<rparr>"
  let ?st3 = "?st2\<lparr>events := events ?st2 @ finally_events ps\<rparr>"
  have "exec H (TRY body ?cs) st = exec H (Stage_loop body ?cs ?old ?loc 1 1) st1"
    using assms(1) by (rule exec_block_body_jump)
  also have "\<dots> = exec H (Stage_loop body ?cs ?old ?loc 2 ?e) ?st2"
    using assms(2) by (rule exec_loop_catch)
  also have "\<dots> = exec H (Stage_loop body ?cs ?old ?loc 3 ?e) ?st3"
    by (rule exec_loop_finally)
  finally have run: "exec H (TRY body ?cs) st = exec H (Stage_loop body ?cs ?old ?loc 3 ?e) ?st3" .
  have fin: "?st3\<lparr>buffer := ?old\<rparr> = block_end (Some tag) ps ?old st1"
    by (simp add: block_end_def selected_catch_def)
  show ?thesis
  proof (cases "consumes (first_catch tag ps)")
    case True
    then show ?thesis using run fin by (simp add: exec_loop_clear)
  next
    case False
    have "exec H (Stage_loop body ?cs ?old ?loc 3 1) ?st3 = Some (delivered H (?st3\<lparr>buffer := ?old\<rparr>))"
      using assms(3,4) False by (intro exec_loop_propagate) simp_all
    then show ?thesis using False run fin by simp
  qed
qed

lemma exec_THROW_quiet:
  assumes "length v = sizeof T" and "sizeof T \<le> length (current_exception st)"
      and "quiet H (except_on_throw st)"
      and "buffer st = None \<longrightarrow> quiet H (except_on_unhandled st)"
  shows "exec H (THROW T v) st = Some (delivered H (thrown_state T v st))"
proof -
  have store: "store_exception (Some (EXCEPT_TYPE_NAME T)) (sizeof T) v st =
               Some (thrown_state T v st)"
    using assms(1,2) by (simp add: store_exception_def memcpy_def thrown_state_def)
  have "exec H (THROW T v) st =
        exec H (Except_throw (Some (EXCEPT_TYPE_NAME T)) (sizeof T) v) st"
    by (rule exec_continue) simp
  also have "\<dots> = Some (delivered H (thrown_state T v st))"
    using store assms(3,4) by (rule exec_Except_throw_quiet)
  finally show ?thesis .
qed

lemma exec_Emits_THROW:
  assumes "length v = sizeof T" and "sizeof T \<le> length (current_exception st)"
      and "quiet H (except_on_throw st)"
      and "buffer st = None \<longrightarrow> quiet H (except_on_unhandled st)"
  shows "exec H (Seq (Emits es) (THROW T v)) st =
         Some (delivered H (thrown_state T v (st\<lparr>events := events st @ es\<rparr>)))"
proof -
  let ?st1 = "st\<lparr>events := events st @ es\<rparr>"
  have step: "step_of H (Seq (Emits es) (THROW T v)) st =
      Sub (Emits es) st
        (\<lambda>out st1. case out of Normal \<Rightarrow> Continue (THROW T v) st1 | other \<Rightarrow> Finish other st1)"
    by simp
  have "exec H (Seq (Emits es) (THROW T v)) st = exec H (THROW T v) ?st1"
    by (subst exec_sub [OF step exec_Emits]) simp
  also have "\<dots> = Some (delivered H (thrown_state T v ?st1))"
    using assms by (intro exec_THROW_quiet) simp_all
  finally show ?thesis .
qed

subsection \<open>The stages of a block\<close>




subsection \<open>Throw, catch and rethrow\<close>




text \<open>
  Claim C6. A throw or a rethrow (\<open>ident = None\<close>) with no try block open on the thread:
  after the on-throw hook, the on-unhandled hook runs, or without one the message with the
  type tag of the pending exception goes to stderr; then the calling thread, and nothing
  else, ends through \<open>thrd_exit(EXIT_FAILURE)\<close>. Hooks that are installed are quiet.
\<close>

theorem unhandled_throw_ends_thread:
  assumes "buffer st = None" and "store_exception ident n v st = Some st1"
      and "quiet H (except_on_throw st)" and "quiet H (except_on_unhandled st)"
  shows "exec H (Except_throw ident n v) st =
     Some (Thrd_exited EXIT_FAILURE,
           if except_on_unhandled st = 0
           then st1\<lparr>events := events st @ hook_events H (except_on_throw st),
                    except_stderr := except_stderr st @ [Unhandled_msg (current_id st1)]\<rparr>
           else st1\<lparr>events := events st @ hook_events H (except_on_throw st) @
                              hook_events H (except_on_unhandled st)\<rparr>)"
proof -
  have same: "buffer st1 = None" "events st1 = events st" "except_stderr st1 = except_stderr st"
    "except_on_throw st1 = except_on_throw st" "except_on_unhandled st1 = except_on_unhandled st"
    using assms(1,2) by (auto simp: store_exception_def split: option.splits)
  have "exec H (Except_throw ident n v) st = Some (delivered H st1)"
    using assms(2,3,4) by (intro exec_Except_throw_quiet) simp_all
  then show ?thesis
    using same by (simp add: delivered_def unhandled_end_def print_unhandled_def Let_def)
qed

theorem unhandled_throw_ends_thread_witness:
  "buffer except_init = None \<and>
   store_exception (Some (EXCEPT_TYPE_NAME T_int)) (sizeof T_int) int5 except_init =
     Some (thrown_state T_int int5 except_init) \<and>
   quiet no_hooks (except_on_throw except_init) \<and>
   quiet no_hooks (except_on_unhandled except_init) \<and>
   exec no_hooks (Except_throw (Some (EXCEPT_TYPE_NAME T_int)) (sizeof T_int) int5) except_init =
     Some (Thrd_exited 1,
           except_init\<lparr>current_exception := int5 @ replicate 124 0, current_id := Some ''int'',
                         except_stderr := [Unhandled_msg (Some ''int'')]\<rparr>)"
proof -
  have h: "buffer except_init = None"
    "store_exception (Some (EXCEPT_TYPE_NAME T_int)) (sizeof T_int) int5 except_init =
       Some (thrown_state T_int int5 except_init)"
    "quiet no_hooks (except_on_throw except_init)"
    "quiet no_hooks (except_on_unhandled except_init)"
    by (simp_all add: except_init_def store_exception_def memcpy_def thrown_state_def int5_def
          quiet_def EXCEPT_MAX_THROWABLE_SIZE_def)
  have ev: "hook_events no_hooks (except_on_throw except_init) = []"
    "except_on_unhandled except_init = 0"
    by (simp_all add: hook_events_def except_init_def)
  have "exec no_hooks (Except_throw (Some (EXCEPT_TYPE_NAME T_int)) (sizeof T_int) int5) except_init =
     Some (Thrd_exited 1,
           except_init\<lparr>current_exception := int5 @ replicate 124 0, current_id := Some ''int'',
                         except_stderr := [Unhandled_msg (Some ''int'')]\<rparr>)"
    unfolding unhandled_throw_ends_thread [OF h] ev
    by (simp add: thrown_state_def except_init_def EXIT_FAILURE_def int5_def
          EXCEPT_MAX_THROWABLE_SIZE_def)
  then show ?thesis using h by simp
qed

text \<open>
  What holds of \<open>rethrow()\<close> when nothing is thrown between the catch clause and the
  enclosing block. \<open>rethrow()\<close> is \<open>break\<close> and changes nothing, and the throw algorithm
  entered with a NULL type tag copies no byte and leaves the tag as it is, in every state.
  A block throws \<open>v\<close> with type \<open>T\<close>, and its first catch clause for the tag rethrows.
  The finally clause of the block still runs, then the block enters the throw algorithm
  again with the record as it is: the jump reaches the enclosing block in the state
  \<open>s1\<close>, whose type tag is the one of \<open>T\<close> and whose payload is the one the throw
  stored, so that a \<open>catch(T, e)\<close> there binds \<open>v\<close>; and the enclosing block selects its
  catch clause by that tag. The bodies of the clauses are straight-line code and the hooks
  that run are quiet.
\<close>

theorem rethrow_preserves_record:
  assumes "length v = sizeof T" and "sizeof T \<le> EXCEPT_MAX_THROWABLE_SIZE"
      and "length (current_exception st) = EXCEPT_MAX_THROWABLE_SIZE"
      and "quiet H (except_on_throw st)"
      and "\<not> consumes (first_catch (EXCEPT_TYPE_NAME T) ps_out) \<and> buffer st = None \<longrightarrow>
           quiet H (except_on_unhandled st)"
      and "first_catch (EXCEPT_TYPE_NAME T) ps_in = Some p" and "\<not> consumes (Some p)"
      and "s1 = (thrown_state T v st)
                  \<lparr>buffer := Some (fresh_buffer (buffer st)),
                   events := events st @ es @ hook_events H (except_on_throw st) @
                             catch_events (thrown_state T v st) (Some p) @ finally_events ps_in @
                             hook_events H (except_on_throw st)\<rparr>"
  shows "exec H RETHROW s = Some (Break, s) \<and>
         store_exception None 0 [] s = Some s \<and>
         exec H (TRY (Seq (Emits es) (THROW T v)) (map clause_of ps_in))
           (st\<lparr>buffer := Some (fresh_buffer (buffer st))\<rparr>) =
           Some (Jump (fresh_buffer (buffer st)), s1) \<and>
         current_id s1 = Some (EXCEPT_TYPE_NAME T) \<and>
         current_exception s1 = current_exception (thrown_state T v st) \<and>
         bound_object T s1 = v \<and>
         exec H (TRY (TRY (Seq (Emits es) (THROW T v)) (map clause_of ps_in))
                   (map clause_of ps_out)) st =
           Some (if consumes (first_catch (EXCEPT_TYPE_NAME T) ps_out)
                 then (Normal, block_end (Some (EXCEPT_TYPE_NAME T)) ps_out (buffer st) s1)
                 else delivered H (block_end (Some (EXCEPT_TYPE_NAME T)) ps_out (buffer st) s1))"
proof -
  let ?name = "EXCEPT_TYPE_NAME T"
  let ?out = "fresh_buffer (buffer st)"
  let ?in = "fresh_buffer (Some ?out)"
  let ?h = "hook_events H (except_on_throw st)"
  let ?outer = "st\<lparr>buffer := Some ?out\<rparr>"
  let ?inner = "?outer\<lparr>buffer := Some ?in\<rparr>"
  let ?st1 = "(thrown_state T v ?inner)\<lparr>events := events st @ es @ ?h\<rparr>"
  have "exec H (Seq (Emits es) (THROW T v)) ?inner =
        Some (delivered H (thrown_state T v (?inner\<lparr>events := events ?inner @ es\<rparr>)))"
    using assms(1-4) by (intro exec_Emits_THROW) simp_all
  then have body: "exec H (Seq (Emits es) (THROW T v))
      (?outer\<lparr>buffer := Some (fresh_buffer (buffer ?outer))\<rparr>) =
      Some (Jump (fresh_buffer (buffer ?outer)), ?st1)"
    by (simp add: delivered_def thrown_state_def)
  have tag: "current_id ?st1 = Some ?name"
    by (simp add: thrown_state_def)
  have ce: "catch_events ?st1 (Some p) = catch_events (thrown_state T v st) (Some p)"
    by (cases p) (simp_all add: bound_object_def thrown_state_def)
  have q1: "quiet H (except_on_throw ?st1)"
    using assms(4) by (simp add: thrown_state_def)
  have q2: "\<not> consumes (first_catch ?name ps_in) \<and> buffer ?outer = None \<longrightarrow>
            quiet H (except_on_unhandled ?st1)"
    by simp
  have "exec H (TRY (Seq (Emits es) (THROW T v)) (map clause_of ps_in)) ?outer =
     (if consumes (first_catch ?name ps_in)
      then Some (Normal, block_end (Some ?name) ps_in (buffer ?outer) ?st1)
      else Some (delivered H (block_end (Some ?name) ps_in (buffer ?outer) ?st1)))"
    by (rule block_thrown [OF body tag q1 q2])
  then have inner: "exec H (TRY (Seq (Emits es) (THROW T v)) (map clause_of ps_in)) ?outer =
      Some (Jump ?out, s1)"
    using assms(6,7,8) ce
    by (simp add: delivered_def block_end_def selected_catch_def Let_def)
       (simp add: thrown_state_def)
  have tag1: "current_id s1 = Some ?name"
    using assms(8) by (simp add: thrown_state_def)
  have rec1: "current_exception s1 = current_exception (thrown_state T v st)"
    using assms(8) by (simp add: thrown_state_def)
  have bound1: "bound_object T s1 = v"
    using assms(1) rec1 by (simp add: bound_object_def thrown_state_def)
  have hooks1: "except_on_throw s1 = except_on_throw st"
    "except_on_unhandled s1 = except_on_unhandled st"
    using assms(8) by (simp_all add: thrown_state_def)
  have q3: "quiet H (except_on_throw s1)"
    using assms(4) hooks1 by simp
  have q4: "\<not> consumes (first_catch ?name ps_out) \<and> buffer st = None \<longrightarrow>
            quiet H (except_on_unhandled s1)"
    using assms(5) hooks1 by simp
  have "exec H (TRY (TRY (Seq (Emits es) (THROW T v)) (map clause_of ps_in))
                   (map clause_of ps_out)) st =
     (if consumes (first_catch ?name ps_out)
      then Some (Normal, block_end (Some ?name) ps_out (buffer st) s1)
      else Some (delivered H (block_end (Some ?name) ps_out (buffer st) s1)))"
    by (rule block_thrown [OF inner tag1 q3 q4])
  moreover have "exec H RETHROW s = Some (Break, s)"
    by (rule exec_finish) simp
  moreover have "store_exception None 0 [] s = Some s"
    by (simp add: store_exception_def)
  ultimately show ?thesis
    using inner tag1 rec1 bound1 by simp
qed

theorem rethrow_preserves_record_witness:
  "length int5 = sizeof T_int \<and> sizeof T_int \<le> EXCEPT_MAX_THROWABLE_SIZE \<and>
   length (current_exception except_init) = EXCEPT_MAX_THROWABLE_SIZE \<and>
   quiet no_hooks (except_on_throw except_init) \<and>
   first_catch (EXCEPT_TYPE_NAME T_int) rethrow_clauses =
     Some (Plain_catch T_int (\<lambda>e. [Bound e]) True) \<and>
   \<not> consumes (Some (Plain_catch T_int (\<lambda>e. [Bound e]) True)) \<and>
   exec no_hooks nested_block except_init =
     Some (Normal,
           except_init\<lparr>current_exception := int5 @ replicate 124 0, current_id := Some ''int'',
                         events := [Mark 1, Bound int5, Mark 9, Mark 2, Bound int5]\<rparr>)"
proof -
  have h: "length int5 = sizeof T_int" "sizeof T_int \<le> EXCEPT_MAX_THROWABLE_SIZE"
    "length (current_exception except_init) = EXCEPT_MAX_THROWABLE_SIZE"
    "quiet no_hooks (except_on_throw except_init)"
    "\<not> consumes (first_catch (EXCEPT_TYPE_NAME T_int) outer_clauses) \<and> buffer except_init = None \<longrightarrow>
       quiet no_hooks (except_on_unhandled except_init)"
    "first_catch (EXCEPT_TYPE_NAME T_int) rethrow_clauses =
       Some (Plain_catch T_int (\<lambda>e. [Bound e]) True)"
    "\<not> consumes (Some (Plain_catch T_int (\<lambda>e. [Bound e]) True))"
    by (simp_all add: int5_def EXCEPT_MAX_THROWABLE_SIZE_def except_init_def quiet_def
          first_catch_def rethrow_clauses_def outer_clauses_def)
  have out: "first_catch ''int'' outer_clauses =
      Some (Plain_catch T_int (\<lambda>e. [Mark 2, Bound e]) False)"
    by (simp add: first_catch_def outer_clauses_def)
  have fin: "finally_events rethrow_clauses = [Mark 9]" "finally_events outer_clauses = []"
    by (simp_all add: finally_events_def rethrow_clauses_def outer_clauses_def)
  have ev: "hook_events no_hooks (except_on_throw except_init) = []"
    by (simp add: hook_events_def except_init_def)
  have "exec no_hooks nested_block except_init =
     Some (Normal,
           except_init\<lparr>current_exception := int5 @ replicate 124 0, current_id := Some ''int'',
                         events := [Mark 1, Bound int5, Mark 9, Mark 2, Bound int5]\<rparr>)"
    using rethrow_preserves_record [OF h refl, where es = "[Mark 1]" and s = except_init]
    by (simp add: nested_block_def out fin ev block_end_def selected_catch_def bound_object_def
          thrown_state_def except_init_def int5_def EXCEPT_MAX_THROWABLE_SIZE_def
          hook_events_def)
  then show ?thesis using h by simp
qed

text \<open>
  Claim C7 says that after \<open>rethrow()\<close> the next enclosing block observes the type tag
  and the payload of the original throw, the finally clause of the rethrowing block
  running in between; except.h says of \<open>rethrow\<close> that it preserves the original
  exception object. The record is one buffer per thread, and a throw overwrites it even
  when that throw is caught at once: in \<open>clobbered_block\<close> the \<open>int\<close> 5 is caught and
  rethrown, the finally clause throws a \<open>char\<close> and catches it itself, and the enclosing
  block then receives the tag \<open>char\<close> and the byte 120: its \<open>catch(int, e)\<close> is passed
  over and its \<open>catch_any\<close> runs.
\<close>

theorem rethrow_after_handled_throw_loses_original:
  "exec no_hooks clobbered_block except_init =
     Some (Normal,
           except_init\<lparr>current_exception := [120, 0, 0, 0] @ replicate 124 0,
                         current_id := Some ''char'', events := [Mark 4]\<rparr>)"
  by code_simp

subsection \<open>The type tag of the record\<close>

lemma loop_after_state [simp]:
  "after_state (loop_after body cs old loc n b j out st) = st"
  by (simp add: loop_after_def split: outcome.splits next_iteration.splits)

lemma deliver_state [simp]: "after_state (deliver st) = st"
  by (simp add: deliver_def split: option.splits)








end
